theory Spec2Isabelle
  imports Main "HOL-Library.Word" "HOL-Library.Multiset"
begin

unbundle bit_operations_syntax


section \<open>Failures\<close>

text \<open>
  A failed \<open>Assert\<close> ends the program; its message is the error value. A loop
  whose body can fail stops at the first failure.
\<close>

type_synonym failure = string

fun fold_err :: "('a \<Rightarrow> 's \<Rightarrow> failure + 's) \<Rightarrow> 'a list \<Rightarrow> 's \<Rightarrow> failure + 's" where
  "fold_err f [] s = Inr s"
| "fold_err f (x # xs) s = (case f x s of Inl e \<Rightarrow> Inl e | Inr s' \<Rightarrow> fold_err f xs s')"

section \<open>Small-node merging (RenderGraph::MergeSmallNodes)\<close>

text \<open>
  The fields of \<open>AggregateRenderNode\<close> that \<open>MergeSmallNodes\<close> reads or writes.
  \<open>Dlgs\<close> holds the recorded callbacks (opaque, named by numbers); a node that
  was never part of a merged command list has \<open>MergedCmdListIdx = -1\<close>, the value
  \<open>BuildTaskGraph\<close> and \<open>GetCompletionFence\<close> test against.
\<close>

record AggregateRenderNode =
  IsAsyncCompute :: bool
  ForceSeparate :: bool
  Dlgs :: "nat list"
  MergeStart :: bool
  MergeEnd :: bool
  MergedCmdListIdx :: int

text \<open>The three loop variables of \<open>MergeSmallNodes\<close>.\<close>

record merge_locals =
  currOffset :: int
  cmdListIdx :: int
  currCount :: int

definition mergeable :: "AggregateRenderNode \<Rightarrow> bool" where
  "mergeable node \<longleftrightarrow>
     \<not> IsAsyncCompute node \<and> \<not> ForceSeparate node \<and> length (Dlgs node) = 1"

text \<open>
  The block \<open>if (currCount) { auto& prev = ...; if (currCount == 1) {...} else {...} }\<close>,
  which occurs twice in the source: inside the loop with \<open>prev = nodes[nodeIdx - 1]\<close>
  and after it with \<open>prev = nodes.back()\<close>.
\<close>

definition close_run ::
  "nat \<Rightarrow> AggregateRenderNode list \<times> merge_locals
     \<Rightarrow> failure + AggregateRenderNode list \<times> merge_locals"
where
  "close_run prevIdx st =
     (case st of (ns, l) \<Rightarrow>
        if currCount l \<noteq> 0 then
          (if currCount l = 1 then
             (if \<not> (MergeStart (ns ! prevIdx) \<and> MergedCmdListIdx (ns ! prevIdx) \<noteq> - 1) then Inl ''bug''
              else
                Inr (ns[prevIdx := (ns ! prevIdx)\<lparr>MergeStart := False,
                       MergedCmdListIdx := MergedCmdListIdx (ns ! prevIdx) - 1\<rparr>], l))
           else
             Inr (ns[prevIdx := (ns ! prevIdx)\<lparr>MergeEnd := True\<rparr>],
                  l\<lparr>cmdListIdx := cmdListIdx l + 1\<rparr>))
        else Inr (ns, l))"

text \<open>One iteration of the \<open>for\<close> loop over the aggregate nodes.\<close>

definition merge_step ::
  "nat \<Rightarrow> AggregateRenderNode list \<times> merge_locals
     \<Rightarrow> failure + AggregateRenderNode list \<times> merge_locals"
where
  "merge_step nodeIdx st =
     (case st of (ns, l) \<Rightarrow>
        if mergeable (ns ! nodeIdx) then
          Inr (ns[nodeIdx := (ns ! nodeIdx)\<lparr>MergeStart := (currOffset l = - 1),
                 MergedCmdListIdx := cmdListIdx l\<rparr>],
               l\<lparr>currOffset := (if currOffset l = - 1 then int nodeIdx else currOffset l),
                 currCount := currCount l + 1\<rparr>)
        else
          (case close_run (nodeIdx - 1) (ns, l) of
             Inl e \<Rightarrow> Inl e
           | Inr (ns', l') \<Rightarrow> Inr (ns', l'\<lparr>currCount := 0, currOffset := - 1\<rparr>)))"

definition merge_init :: merge_locals where
  "merge_init = \<lparr>currOffset = - 1, cmdListIdx = 0, currCount = 0\<rparr>"

text \<open>
  The self-check of debug builds at the end of the function, one iteration: the state
  is \<open>inMerged\<close> and \<open>currCount\<close>.
\<close>

definition merge_validation_step :: "AggregateRenderNode \<Rightarrow> bool \<times> int \<Rightarrow> failure + bool \<times> int" where
  "merge_validation_step node st =
     (case st of (inMerged, cnt) \<Rightarrow>
        if inMerged \<and> MergeStart node then Inl ''RenderGraph: merge validation failed.''
        else if \<not> inMerged \<and> MergeEnd node then Inl ''RenderGraph: merge validation failed.''
        else
          (let inMerged1 = (if MergeStart node then True else inMerged);
               cnt1 = (if inMerged1 then cnt + 1 else cnt)
           in
           if MergeEnd node then
             (if MergeStart node \<or> \<not> inMerged1 \<or> \<not> cnt1 > 1 then
                Inl ''RenderGraph: merge validation failed.''
              else Inr (False, 0))
           else Inr (inMerged1, cnt1)))"

text \<open>
  The whole function: the loop, the closing block for a run that reaches the end of
  the list, and the self-check. The second component of the result is the final
  \<open>cmdListIdx\<close>, the size given to \<open>m_mergedCmdLists\<close>.
\<close>

definition MergeSmallNodes ::
  "AggregateRenderNode list \<Rightarrow> failure + AggregateRenderNode list \<times> int"
where
  "MergeSmallNodes ns =
     (case fold_err merge_step [0..<length ns] (ns, merge_init) of
        Inl e \<Rightarrow> Inl e
      | Inr (ns1, l1) \<Rightarrow>
          (case close_run (length ns - 1) (ns1, l1) of
             Inl e \<Rightarrow> Inl e
           | Inr (ns2, l2) \<Rightarrow>
               (case fold_err merge_validation_step ns2 (False, 0) of
                  Inl e \<Rightarrow> Inl e
                | Inr v \<Rightarrow> Inr (ns2, cmdListIdx l2))))"

text \<open>A freshly joined aggregate node: nothing merged yet.\<close>

definition fresh_agg :: "bool \<Rightarrow> bool \<Rightarrow> nat list \<Rightarrow> AggregateRenderNode" where
  "fresh_agg async sep dlgs =
     \<lparr>IsAsyncCompute = async, ForceSeparate = sep, Dlgs = dlgs,
      MergeStart = False, MergeEnd = False, MergedCmdListIdx = - 1\<rparr>"


section \<open>The worker pool (ThreadPool)\<close>

text \<open>
  A task carries its priority, its signal handle, the handles of the tasks that wait for
  it, and its callback (opaque, named by a number). The calls a thread makes into the
  application while it runs a task are recorded as events, in program order.
\<close>

datatype TASK_PRIORITY = NORMAL | BACKGROUND

record Task =
  Priority :: TASK_PRIORITY
  SignalHandle :: int
  Adjacencies :: "int list"
  Callback :: nat

datatype pool_event =
    WaitForAdjacentHeadNodes int
  | DoTask nat
  | SignalAdjacentTailNodes "int list"

record ThreadPool =
  m_taskQueue :: "Task list"
  m_numTasksInQueue :: int
  m_numTasksFinished :: int
  m_numTasksToFinishTarget :: int
  events :: "pool_event list"

text \<open>
  \<open>if (adjacencies.size() > 0) App::SignalAdjacentTailNodes(adjacencies)\<close>, shared by
  both execution paths.
\<close>

definition signal_events :: "Task \<Rightarrow> pool_event list" where
  "signal_events t = (if length (Adjacencies t) > 0 then [SignalAdjacentTailNodes (Adjacencies t)] else [])"

text \<open>
  The body of \<open>PumpUntilEmpty\<close>'s loop once \<open>try_dequeue\<close> has delivered task \<open>t\<close>:
  the queue counter goes down, the thread waits for the inbound signals of the task's
  handle, runs the callback, signals the outbound tasks and counts the task as finished.
  The source tests no priority here.
\<close>

definition pump_task :: "Task \<Rightarrow> ThreadPool \<Rightarrow> ThreadPool" where
  "pump_task t s =
     s\<lparr>m_numTasksInQueue := m_numTasksInQueue s - 1,
       events := events s @ [WaitForAdjacentHeadNodes (SignalHandle t), DoTask (Callback t)]
                   @ signal_events t,
       m_numTasksFinished := m_numTasksFinished s + 1\<rparr>"

text \<open>
  The body of \<open>WorkerThread\<close>'s loop after \<open>wait_dequeue\<close> has delivered task \<open>t\<close>:
  both the wait and the signalling are guarded by
  \<open>task.GetPriority() != TASK_PRIORITY::BACKGROUND\<close>.
\<close>

definition worker_task :: "Task \<Rightarrow> ThreadPool \<Rightarrow> ThreadPool" where
  "worker_task t s =
     s\<lparr>m_numTasksInQueue := m_numTasksInQueue s - 1,
       events := events s
                   @ (if Priority t \<noteq> BACKGROUND then [WaitForAdjacentHeadNodes (SignalHandle t)] else [])
                   @ [DoTask (Callback t)]
                   @ (if Priority t \<noteq> BACKGROUND then signal_events t else []),
       m_numTasksFinished := m_numTasksFinished s + 1\<rparr>"

text \<open>
  \<open>PumpUntilEmpty\<close> on one thread, with no other thread touching the queue:
  \<open>try_dequeue\<close> succeeds exactly when the queue holds a task. When the counter says
  there is work but the queue is empty the loop spins, which is the value \<open>None\<close>.
\<close>

partial_function (option) PumpUntilEmpty :: "ThreadPool \<Rightarrow> ThreadPool option" where
  "PumpUntilEmpty s =
     (if m_numTasksInQueue s \<noteq> 0 then
        (case m_taskQueue s of
           [] \<Rightarrow> PumpUntilEmpty s
         | t # q \<Rightarrow> PumpUntilEmpty (pump_task t (s\<lparr>m_taskQueue := q\<rparr>)))
      else Some s)"

definition TryFlush :: "ThreadPool \<Rightarrow> (bool \<times> ThreadPool) option" where
  "TryFlush s =
     (let success = (m_numTasksFinished s = m_numTasksToFinishTarget s) in
      if \<not> success then
        (case PumpUntilEmpty s of None \<Rightarrow> None | Some s' \<Rightarrow> Some (success, s'))
      else
        Some (success, s\<lparr>m_numTasksFinished := 0, m_numTasksToFinishTarget := 0\<rparr>))"

definition bg_task :: Task where
  "bg_task = \<lparr>Priority = BACKGROUND, SignalHandle = 7, Adjacencies = [8], Callback = 1\<rparr>"

definition normal_task :: Task where
  "normal_task = \<lparr>Priority = NORMAL, SignalHandle = 3, Adjacencies = [], Callback = 2\<rparr>"

definition pool_with :: "Task list \<Rightarrow> int \<Rightarrow> int \<Rightarrow> ThreadPool" where
  "pool_with q fin tgt =
     \<lparr>m_taskQueue = q, m_numTasksInQueue = int (length q), m_numTasksFinished = fin,
      m_numTasksToFinishTarget = tgt, events = []\<rparr>"

section \<open>The render graph: data model\<close>

text \<open>
  Resource states are the bit masks of \<open>D3D12_RESOURCE_STATES\<close>. Resource ids
  (\<open>uint64_t\<close> paths) are only compared, never computed with, and are natural numbers
  here. A native resource pointer is a number, \<open>0\<close> for \<open>nullptr\<close>. A
  \<open>RenderNodeHandle\<close> is its \<open>Val\<close>, an integer, \<open>-1\<close> for the invalid handle.
\<close>

type_synonym D3D12_RESOURCE_STATES = "32 word"

text \<open>
  Modelled from the spec: the state masks of \<open>Constants\<close> and \<open>DUMMY_RES::COUNT\<close>
  are declared in headers that are not under src/. Section 6 of the specification
  gives the masks as unions of the D3D12 state bits; ids below a small reserved range
  are dummy resources.
\<close>

definition READ_STATES :: D3D12_RESOURCE_STATES where
  "READ_STATES = 0x40 OR 0x80 OR 0x2 OR 0x1 OR 0x800"

definition WRITE_STATES :: D3D12_RESOURCE_STATES where
  "WRITE_STATES = 0x4 OR 0x8 OR 0x10 OR 0x400"

definition INVALID_COMPUTE_STATES :: D3D12_RESOURCE_STATES where
  "INVALID_COMPUTE_STATES = 0x4 OR 0x20 OR 0x10 OR 0x80"

definition D3D12_RESOURCE_STATE_PRESENT :: D3D12_RESOURCE_STATES where
  "D3D12_RESOURCE_STATE_PRESENT = 0"

definition DUMMY_RES_COUNT :: nat where
  "DUMMY_RES_COUNT = 4"

record Dependency =
  ResID :: nat
  ExpectedState :: D3D12_RESOURCE_STATES

record ResourceMetadata =
  ID :: nat
  Res :: nat
  State :: D3D12_RESOURCE_STATES
  IsWindowSizeDependent :: bool
  Producers :: "int list"
  CurrProdIdx :: int

datatype RENDER_NODE_TYPE = RENDER | COMPUTE | ASYNC_COMPUTE

record TransitionBarrier =
  pResource :: nat
  StateBefore :: D3D12_RESOURCE_STATES
  StateAfter :: D3D12_RESOURCE_STATES

text \<open>
  \<open>Indegree\<close> is an \<open>int16\<close> in the source. The model holds its value as an
  integer and stops with a failure wherever a value that is stored into it does not
  fit into sixteen bits (where the conversion to \<open>int16\<close> would wrap around).
  \<open>OutputMask\<close> is read and written with \<open>1 << i\<close> on a 32-bit \<open>int\<close>; the model
  keeps 32 bits, and a shift by 32 or more sets or tests no bit.
\<close>

definition int16_range :: "int \<Rightarrow> bool" where
  "int16_range x \<longleftrightarrow> - 32768 \<le> x \<and> x \<le> 32767"

record RenderNode =
  Type :: RENDER_NODE_TYPE
  ForceSeparateCmdList :: bool
  Inputs :: "Dependency list"
  Outputs :: "Dependency list"
  Indegree :: int
  NodeBatchIdx :: int
  Barriers :: "TransitionBarrier list"
  GpuDepSourceIdx :: int
  OutputMask :: "32 word"
  HasUnsupportedBarrier :: bool

text \<open>
  The graph. \<open>m_frameResources\<close> has \<open>MAX_NUM_RESOURCES\<close> entries (it is resized to
  that in \<open>Reset\<close>), \<open>m_renderNodes\<close> and \<open>m_mapping\<close> have
  \<open>MAX_NUM_RENDER_PASSES\<close> entries and every \<open>Producers\<close> array has
  \<open>MAX_NUM_PRODUCERS\<close>: the capacities are the lengths of the lists.
\<close>

record RenderGraph =
  m_frameResources :: "ResourceMetadata list"
  m_prevFramesNumResources :: int
  m_lastResIdx :: int
  m_renderNodes :: "RenderNode list"
  m_currRenderPassIdx :: int
  m_mapping :: "int list"
  m_inBeginEndBlock :: bool
  m_inPreRegister :: bool

definition MAX_NUM_RESOURCES :: "RenderGraph \<Rightarrow> int" where
  "MAX_NUM_RESOURCES g = int (length (m_frameResources g))"

definition MAX_NUM_RENDER_PASSES :: "RenderGraph \<Rightarrow> int" where
  "MAX_NUM_RENDER_PASSES g = int (length (m_renderNodes g))"

definition MAX_NUM_PRODUCERS :: "ResourceMetadata \<Rightarrow> int" where
  "MAX_NUM_PRODUCERS r = int (length (Producers r))"

section \<open>Resource lookup\<close>

text \<open>
  Modelled from the spec: \<open>Util::BinarySearch\<close> (Utility.h is not under src/).
  Lookup by id is a binary search over the entries \<open>beg..end\<close> (both ends included, as
  the callers pass \<open>count - 1\<close>) of a table sorted by id; it yields the index of an
  entry with the id or \<open>-1\<close>.
\<close>

function lower_bound :: "ResourceMetadata list \<Rightarrow> nat \<Rightarrow> nat \<Rightarrow> nat \<Rightarrow> nat" where
  "lower_bound data key lo hi =
     (if lo < hi then
        (let mid = (lo + hi) div 2 in
         if ID (data ! mid) < key then lower_bound data key (mid + 1) hi
         else lower_bound data key lo mid)
      else lo)"
  by pat_completeness auto
termination
  by (relation "measure (\<lambda>(data, key, lo, hi). hi - lo)") auto

declare lower_bound.simps [simp del]

definition BinarySearch :: "ResourceMetadata list \<Rightarrow> nat \<Rightarrow> int \<Rightarrow> int \<Rightarrow> int" where
  "BinarySearch data key beg end =
     (if beg < 0 \<or> end < beg \<or> int (length data) \<le> end then - 1
      else
        (let i = lower_bound data key (nat beg) (nat end) in
         if ID (data ! i) = key then int i else - 1))"

text \<open>\<open>RenderGraph::FindFrameResource(key, beg, end)\<close>.\<close>

definition FindFrameResource :: "RenderGraph \<Rightarrow> nat \<Rightarrow> int \<Rightarrow> int \<Rightarrow> int" where
  "FindFrameResource g key beg end =
     (if end - beg = 0 then - 1
      else
        (let end' = (if end = - 1 then m_lastResIdx g - 1 else end) in
         BinarySearch (m_frameResources g) key beg end'))"

text \<open>
  The one-argument calls \<open>FindFrameResource(id)\<close>: the declaration's default
  arguments are \<open>beg = 0\<close> and \<open>end = -1\<close>, the value the body replaces by
  \<open>m_lastResIdx - 1\<close>.
\<close>

definition FindFrameResource1 :: "RenderGraph \<Rightarrow> nat \<Rightarrow> int" where
  "FindFrameResource1 g key = FindFrameResource g key 0 (- 1)"

section \<open>Declaring resources, inputs and outputs\<close>

text \<open>
  Modelled from the spec: \<open>ResourceMetadata::Reset(id, res, state, windowDependent)\<close>
  is defined in RenderGraph.h, not under src/. It installs the id, the native handle,
  the initial state and the window-size flag in the slot and empties its producer list.
\<close>

definition ResourceMetadata_Reset ::
  "nat \<Rightarrow> nat \<Rightarrow> D3D12_RESOURCE_STATES \<Rightarrow> bool \<Rightarrow> ResourceMetadata \<Rightarrow> ResourceMetadata"
where
  "ResourceMetadata_Reset path res initState isWindowSizeDependent r =
     r\<lparr>ID := path, Res := res, State := initState,
       IsWindowSizeDependent := isWindowSizeDependent,
       Producers := map (\<lambda>p. - 1) (Producers r), CurrProdIdx := 0\<rparr>"

definition RegisterResource ::
  "RenderGraph \<Rightarrow> nat \<Rightarrow> nat \<Rightarrow> D3D12_RESOURCE_STATES \<Rightarrow> bool
     \<Rightarrow> (failure \<times> RenderGraph) + RenderGraph"
where
  "RegisterResource g res path initState isWindowSizeDependent =
     (if \<not> (m_inBeginEndBlock g \<and> m_inPreRegister g) then Inl (''Invalid call.'', g)
      else if \<not> (res = 0 \<or> path > DUMMY_RES_COUNT) then
        Inl (''resource path ID can't take special value'', g)
      else
        (let prevPos = FindFrameResource g path 0 (m_prevFramesNumResources g - 1) in
         if prevPos \<noteq> - 1 then
           (if Res (m_frameResources g ! nat prevPos) \<noteq> res then
              Inr (g\<lparr>m_frameResources := (m_frameResources g)[nat prevPos :=
                     ResourceMetadata_Reset path res initState isWindowSizeDependent
                       (m_frameResources g ! nat prevPos)]\<rparr>)
            else Inr g)
         else
           (let pos = m_lastResIdx g; g' = g\<lparr>m_lastResIdx := pos + 1\<rparr> in
            if \<not> pos < MAX_NUM_RESOURCES g' then
              Inl (''Number of resources exceeded MAX_NUM_RESOURCES'', g')
            else
              Inr (g'\<lparr>m_frameResources := (m_frameResources g')[nat pos :=
                     ResourceMetadata_Reset path res initState isWindowSizeDependent
                       (m_frameResources g' ! nat pos)]\<rparr>))))"

text \<open>
  The handle checks shared by \<open>AddInput\<close> and \<open>AddOutput\<close>:
  \<open>h.IsValid()\<close> and \<open>h.Val < m_currRenderPassIdx\<close>. A handle below \<open>-1\<close> would
  pass both and index in front of the node table; the model stops there as well.
\<close>

definition handle_ok :: "RenderGraph \<Rightarrow> int \<Rightarrow> bool" where
  "handle_ok g h \<longleftrightarrow> h \<noteq> - 1 \<and> h < m_currRenderPassIdx g \<and> 0 \<le> h \<and> h < MAX_NUM_RENDER_PASSES g"

definition AddInput ::
  "RenderGraph \<Rightarrow> int \<Rightarrow> nat \<Rightarrow> D3D12_RESOURCE_STATES \<Rightarrow> (failure \<times> RenderGraph) + RenderGraph"
where
  "AddInput g h pathID expectedState =
     (if \<not> (m_inBeginEndBlock g \<and> \<not> m_inPreRegister g) then Inl (''Invalid call.'', g)
      else if \<not> handle_ok g h then Inl (''Invalid handle'', g)
      else if expectedState AND READ_STATES = 0 then Inl (''Invalid read state.'', g)
      else
        Inr (g\<lparr>m_renderNodes := (m_renderNodes g)[nat h :=
               (m_renderNodes g ! nat h)\<lparr>Inputs := Inputs (m_renderNodes g ! nat h)
                  @ [\<lparr>ResID = pathID, ExpectedState = expectedState\<rparr>]\<rparr>]\<rparr>))"

definition AddOutput ::
  "RenderGraph \<Rightarrow> int \<Rightarrow> nat \<Rightarrow> D3D12_RESOURCE_STATES \<Rightarrow> (failure \<times> RenderGraph) + RenderGraph"
where
  "AddOutput g h pathID expectedState =
     (if \<not> (m_inBeginEndBlock g \<and> \<not> m_inPreRegister g) then Inl (''Invalid call.'', g)
      else if \<not> handle_ok g h then Inl (''Invalid handle'', g)
      else if expectedState AND WRITE_STATES = 0 then Inl (''Invalid write state.'', g)
      else if \<not> (Type (m_renderNodes g ! nat h) \<noteq> ASYNC_COMPUTE
                   \<or> expectedState AND INVALID_COMPUTE_STATES = 0) then
        Inl (''state transition is not supported on an async-compute command list.'', g)
      else
        (let g1 = g\<lparr>m_renderNodes := (m_renderNodes g)[nat h :=
                     (m_renderNodes g ! nat h)\<lparr>Outputs := Outputs (m_renderNodes g ! nat h)
                        @ [\<lparr>ResID = pathID, ExpectedState = expectedState\<rparr>]\<rparr>]\<rparr>;
             idx = FindFrameResource1 g1 pathID
         in
         if idx = - 1 then Inl (''Invalid resource path.'', g1)
         else
           (let r = m_frameResources g1 ! nat idx;
                prodIdx = CurrProdIdx r;
                r1 = r\<lparr>CurrProdIdx := prodIdx + 1\<rparr>;
                g2 = g1\<lparr>m_frameResources := (m_frameResources g1)[nat idx := r1]\<rparr>
            in
            if \<not> prodIdx < MAX_NUM_PRODUCERS r then
              Inl (''Number of producers for each resource can't exceed MAX_NUM_PRODUCERS'', g2)
            else
              Inr (g2\<lparr>m_frameResources := (m_frameResources g2)[nat idx :=
                     r1\<lparr>Producers := (Producers r1)[nat prodIdx := h]\<rparr>]\<rparr>))))"

text \<open>
  Concrete tables for the examples: an unused slot (as \<open>ResourceMetadata::Reset()\<close>
  leaves it, with the invalid id), a slot holding a resource, and a node with nothing
  declared yet.
\<close>

definition empty_slot :: ResourceMetadata where
  "empty_slot = \<lparr>ID = 18446744073709551615, Res = 0, State = 0, IsWindowSizeDependent = False,
                 Producers = [- 1, - 1], CurrProdIdx = 0\<rparr>"

definition slot :: "nat \<Rightarrow> nat \<Rightarrow> D3D12_RESOURCE_STATES \<Rightarrow> int list \<Rightarrow> ResourceMetadata" where
  "slot path res st prods =
     \<lparr>ID = path, Res = res, State = st, IsWindowSizeDependent = False,
      Producers = prods @ drop (length prods) [- 1, - 1], CurrProdIdx = int (length prods)\<rparr>"

definition fresh_node :: "RENDER_NODE_TYPE \<Rightarrow> RenderNode" where
  "fresh_node t =
     \<lparr>Type = t, ForceSeparateCmdList = False, Inputs = [], Outputs = [], Indegree = 0,
      NodeBatchIdx = - 1, Barriers = [], GpuDepSourceIdx = - 1, OutputMask = 0,
      HasUnsupportedBarrier = False\<rparr>"

section \<open>Build: edge construction and in-degrees\<close>

text \<open>
  The inner loop \<open>for (i = 0; i < numOutputs; i++) if (Outputs[i].ResID == input.ResID)
  { OutputMask |= (1 << i); break; }\<close>, started at output index \<open>i\<close>.
  \<open>1 << i\<close> shifts an \<open>int\<close>, and nothing bounds the number of outputs of a node:
  for \<open>i \<ge> 32\<close> the shift count is not less than the width of the operand and the
  behaviour of the program is undefined. The model stops there.
\<close>

fun set_output_mask :: "Dependency list \<Rightarrow> nat \<Rightarrow> nat \<Rightarrow> 32 word \<Rightarrow> failure + 32 word" where
  "set_output_mask [] resID i om = Inr om"
| "set_output_mask (out # outs) resID i om =
     (if ResID out = resID then
        (if i < 32 then Inr (om OR push_bit i 1) else Inl ''OutputMask: shift count out of range'')
      else set_output_mask outs resID (Suc i) om)"

text \<open>
  The producers of a resource as the loop \<open>for (prod = 0; prod < numProducers; prod++)\<close>
  reads them.
\<close>

definition producers_of :: "ResourceMetadata \<Rightarrow> int list" where
  "producers_of r = map (\<lambda>j. Producers r ! j) [0..<nat (CurrProdIdx r)]"

text \<open>
  The body of the loop over the producers of one input of node \<open>currNode\<close>. The state
  is the node under construction and the adjacency table \<open>adjacentTailNodes\<close>.
  A producer handle outside the adjacency table is an access outside the array; the
  model stops there.
\<close>

definition build_producer ::
  "nat \<Rightarrow> Dependency \<Rightarrow> int \<Rightarrow> RenderNode \<times> nat list list
     \<Rightarrow> failure + RenderNode \<times> nat list list"
where
  "build_producer currNode inp prodHandle st =
     (case st of (node, adj) \<Rightarrow>
        if int currNode = prodHandle then
          (if \<not> int16_range (Indegree node - 1) then Inl ''Indegree: int16 overflow''
           else if \<not> length (Outputs node) > 0 then Inl ''invalid graph.''
           else
             (case set_output_mask (Outputs node) (ResID inp) 0 (OutputMask node) of
                Inl e \<Rightarrow> Inl e
              | Inr om \<Rightarrow> Inr (node\<lparr>Indegree := Indegree node - 1, OutputMask := om\<rparr>, adj)))
        else if 0 \<le> prodHandle \<and> nat prodHandle < length adj then
          Inr (node, adj[nat prodHandle := adj ! nat prodHandle @ [currNode]])
        else Inl ''adjacentTailNodes: index out of range'')"

text \<open>The body of the loop over the inputs of node \<open>currNode\<close>.\<close>

definition build_input ::
  "RenderGraph \<Rightarrow> nat \<Rightarrow> Dependency \<Rightarrow> RenderNode \<times> nat list list
     \<Rightarrow> failure + RenderNode \<times> nat list list"
where
  "build_input g currNode inp st =
     (case st of (node, adj) \<Rightarrow>
        (let idx = FindFrameResource1 g (ResID inp) in
         if idx = - 1 then Inl ''Resource ID was not found.''
         else
           (let r = m_frameResources g ! nat idx;
                numProducers = CurrProdIdx r
            in
            if numProducers = 0 \<and> \<not> Indegree node - 1 \<ge> 0 then Inl ''Invalid indegree for node.''
            else if numProducers \<noteq> 0 \<and> \<not> int16_range (Indegree node + (numProducers - 1)) then
              Inl ''Indegree: int16 overflow''
            else if numProducers > MAX_NUM_PRODUCERS r then Inl ''Producers: index out of range''
            else
              fold_err (build_producer currNode inp) (producers_of r)
                (node\<lparr>Indegree := (if numProducers = 0 then Indegree node - 1
                                     else Indegree node + (numProducers - 1))\<rparr>, adj))))"

text \<open>One iteration of the outer loop: all inputs of \<open>m_renderNodes[currNode]\<close>.\<close>

definition build_node ::
  "RenderGraph \<Rightarrow> nat \<Rightarrow> RenderNode list \<times> nat list list
     \<Rightarrow> failure + RenderNode list \<times> nat list list"
where
  "build_node g currNode st =
     (case st of (nodes, adj) \<Rightarrow>
        (case fold_err (build_input g currNode) (Inputs (nodes ! currNode)) (nodes ! currNode, adj) of
           Inl e \<Rightarrow> Inl e
         | Inr (node', adj') \<Rightarrow> Inr (nodes[currNode := node'], adj')))"

text \<open>The first loop of \<open>Build\<close>: \<open>Indegree = (int16)Inputs.size()\<close> for every node.\<close>

definition init_indegree :: "nat \<Rightarrow> RenderNode list \<Rightarrow> failure + RenderNode list" where
  "init_indegree i nodes =
     (if \<not> int16_range (int (length (Inputs (nodes ! i)))) then Inl ''Indegree: int16 overflow''
      else Inr (nodes[i := (nodes ! i)\<lparr>Indegree := int (length (Inputs (nodes ! i)))\<rparr>]))"

definition init_indegrees :: "nat \<Rightarrow> RenderNode list \<Rightarrow> failure + RenderNode list" where
  "init_indegrees numNodes nodes = fold_err init_indegree [0..<numNodes] nodes"

text \<open>
  \<open>Build\<close> up to the call of \<open>Sort\<close>: the nodes with their in-degrees and output
  masks, and the adjacency table (one list of successor handles per node slot).
\<close>

definition BuildEdges :: "RenderGraph \<Rightarrow> failure + RenderNode list \<times> nat list list" where
  "BuildEdges g =
     (if \<not> (m_inBeginEndBlock g \<and> \<not> m_inPreRegister g) then Inl ''Invalid call.''
      else if \<not> m_currRenderPassIdx g > 0 then Inl ''no render nodes''
      else if m_currRenderPassIdx g > MAX_NUM_RENDER_PASSES g then Inl ''m_renderNodes: index out of range''
      else
        (case init_indegrees (nat (m_currRenderPassIdx g)) (m_renderNodes g) of
           Inl e \<Rightarrow> Inl e
         | Inr nodes \<Rightarrow>
             fold_err (build_node g) [0..<nat (m_currRenderPassIdx g)]
               (nodes, replicate (length (m_renderNodes g)) [])))"

section \<open>Sort: topological order, batches, mapping\<close>

text \<open>
  The body of the loops over \<open>adjacentTailNodes[currHandle]\<close> in the topological sort:
  \<open>if (--m_renderNodes[adjacent.Val].Indegree == 0) sorted[currIdx++] = adjacent\<close>.
  The state is the node table and the filled part of \<open>sorted\<close>.
\<close>

definition relax ::
  "nat \<Rightarrow> RenderNode list \<times> nat list \<Rightarrow> failure + RenderNode list \<times> nat list"
where
  "relax adjacent st =
     (case st of (nodes, srt) \<Rightarrow>
        (let d = Indegree (nodes ! adjacent) - 1;
             nodes' = nodes[adjacent := (nodes ! adjacent)\<lparr>Indegree := d\<rparr>]
         in if \<not> int16_range d then Inl ''Indegree: int16 overflow''
            else if d = 0 then Inr (nodes', srt @ [adjacent]) else Inr (nodes', srt)))"

text \<open>
  One iteration of the topological-sort loop. \<open>sorted\<close> starts out filled with invalid
  handles, so \<open>Assert(sorted[currNode].IsValid())\<close> holds exactly when position
  \<open>currNode\<close> has been written, that is when \<open>currNode < currIdx\<close>.
\<close>

definition kahn_step ::
  "nat list list \<Rightarrow> nat \<Rightarrow> RenderNode list \<times> nat list \<Rightarrow> failure + RenderNode list \<times> nat list"
where
  "kahn_step adj currNode st =
     (case st of (nodes, srt) \<Rightarrow>
        if \<not> currNode < length srt then Inl ''invalid handle''
        else fold_err relax (adj ! (srt ! currNode)) (nodes, srt))"

text \<open>The first loop of \<open>Sort\<close>: the nodes with in-degree zero, in handle order.\<close>

definition frontier :: "nat \<Rightarrow> RenderNode list \<Rightarrow> nat list" where
  "frontier numNodes nodes = filter (\<lambda>i. Indegree (nodes ! i) = 0) [0..<numNodes]"

definition frontier_batches :: "nat \<Rightarrow> RenderNode list \<Rightarrow> RenderNode list" where
  "frontier_batches numNodes nodes =
     fold (\<lambda>i ns. if Indegree (ns ! i) = 0 then ns[i := (ns ! i)\<lparr>NodeBatchIdx := 0\<rparr>] else ns)
       [0..<numNodes] nodes"

text \<open>The longest-path loop: one edge, then all edges out of \<open>sorted[i]\<close>.\<close>

definition batch_edge :: "nat \<Rightarrow> nat \<Rightarrow> RenderNode list \<Rightarrow> RenderNode list" where
  "batch_edge currHandle adjacent nodes =
     nodes[adjacent := (nodes ! adjacent)\<lparr>NodeBatchIdx :=
        max (NodeBatchIdx (nodes ! currHandle) + 1) (NodeBatchIdx (nodes ! adjacent))\<rparr>]"

definition batch_step :: "nat list list \<Rightarrow> nat \<Rightarrow> RenderNode list \<Rightarrow> RenderNode list" where
  "batch_step adj currHandle nodes = fold (batch_edge currHandle) (adj ! currHandle) nodes"

text \<open>
  \<open>Sort\<close> up to the call of \<open>std::sort\<close>: the topological order and the node table
  with its batch indices.
\<close>

definition Sort_topological ::
  "nat \<Rightarrow> nat list list \<Rightarrow> RenderNode list \<Rightarrow> failure + nat list \<times> RenderNode list"
where
  "Sort_topological numNodes adj nodes =
     (let srt0 = frontier numNodes nodes;
          nodes0 = frontier_batches numNodes nodes
      in
      if \<not> length srt0 > 0 then Inl ''Graph is not a DAG- no node with 0 dependencies.''
      else
        (case fold_err (kahn_step adj) [0..<numNodes] (nodes0, srt0) of
           Inl e \<Rightarrow> Inl e
         | Inr (nodes1, srt) \<Rightarrow>
             if numNodes \<noteq> length srt then Inl ''Graph is not a DAG''
             else Inr (srt, fold (batch_step adj) srt nodes1)))"

text \<open>
  \<open>std::sort\<close> with the comparison \<open>NodeBatchIdx(lhs) < NodeBatchIdx(rhs)\<close>. Its
  contract fixes the result only up to the order of equivalent elements: the result is
  a rearrangement of the input that is ordered by the key. Any such result is
  admitted here; the run of one implementation of the library is \<open>Sort_libstdcxx\<close>
  below.
\<close>

definition std_sort_result :: "('a \<Rightarrow> int) \<Rightarrow> 'a list \<Rightarrow> 'a list \<Rightarrow> bool" where
  "std_sort_result key xs ys \<longleftrightarrow> mset ys = mset xs \<and> sorted (map key ys)"

text \<open>
  The rest of \<open>Sort\<close>: \<open>m_mapping[sorted[currNode].Val] = RenderNodeHandle(currNode)\<close>
  for every position, then the shuffle of the node table through \<open>tempRenderNodes\<close>.
\<close>

definition fill_mapping :: "nat list \<Rightarrow> int list \<Rightarrow> int list" where
  "fill_mapping srt mapping =
     fold (\<lambda>currNode m. m[srt ! currNode := int currNode]) [0..<length srt] mapping"

definition shuffle :: "nat list \<Rightarrow> RenderNode list \<Rightarrow> RenderNode list" where
  "shuffle srt nodes =
     map (\<lambda>currNode. nodes ! (srt ! currNode)) [0..<length srt] @ drop (length srt) nodes"

text \<open>
  \<open>Sort\<close> as a relation between the graph before and after: the deterministic parts
  are functions, the call of \<open>std::sort\<close> may return any result its contract admits.
\<close>

inductive Sort :: "nat list list \<Rightarrow> RenderGraph \<Rightarrow> RenderGraph \<Rightarrow> bool" where
  SortI:
    "Sort_topological (nat (m_currRenderPassIdx g)) adj (m_renderNodes g) = Inr (topo, nodes) \<Longrightarrow>
     std_sort_result (\<lambda>h. NodeBatchIdx (nodes ! h)) topo srt \<Longrightarrow>
     Sort adj g (g\<lparr>m_mapping := fill_mapping srt (m_mapping g),
                   m_renderNodes := shuffle srt nodes\<rparr>)"

section \<open>Reference notions for the edge construction\<close>

text \<open>
  What the statements about \<open>Build\<close> speak of: the table entry an input names, the
  correction of the in-degree for its \<open>k\<close> producers (\<open>-1\<close> when \<open>k = 0\<close>, else
  \<open>k - 1\<close>), and the index of the first output of a node that names a resource.
\<close>

definition resource_of :: "RenderGraph \<Rightarrow> Dependency \<Rightarrow> ResourceMetadata" where
  "resource_of g inp = m_frameResources g ! nat (FindFrameResource1 g (ResID inp))"

definition fan_in :: "RenderGraph \<Rightarrow> Dependency \<Rightarrow> int" where
  "fan_in g inp =
     (if CurrProdIdx (resource_of g inp) = 0 then - 1 else CurrProdIdx (resource_of g inp) - 1)"

definition times_produced_by :: "RenderGraph \<Rightarrow> int \<Rightarrow> Dependency \<Rightarrow> nat" where
  "times_produced_by g h inp = count_list (producers_of (resource_of g inp)) h"

fun first_output :: "Dependency list \<Rightarrow> nat \<Rightarrow> nat option" where
  "first_output [] resID = None"
| "first_output (out # outs) resID =
     (if ResID out = resID then Some 0 else map_option Suc (first_output outs resID))"

text \<open>
  Auxiliary notions for the proofs: the number of adjacency entries \<open>p \<rightarrow> c\<close> that a
  producer list contributes (none when \<open>p = c\<close>), the output mask with the bit of the
  first output that names a resource, the output mask after a list of
  inputs, and the node and the number of edges that the loop over the inputs of node
  \<open>c\<close> must produce.
\<close>

definition mask_with :: "Dependency list \<Rightarrow> nat \<Rightarrow> 32 word \<Rightarrow> 32 word" where
  "mask_with outs resID om =
     (case first_output outs resID of None \<Rightarrow> om | Some j \<Rightarrow> om OR push_bit j 1)"

definition edges_added :: "nat \<Rightarrow> nat \<Rightarrow> int list \<Rightarrow> nat" where
  "edges_added p c ps = (if p = c then 0 else count_list ps (int p))"

definition mask_after :: "RenderGraph \<Rightarrow> nat \<Rightarrow> Dependency list \<Rightarrow> Dependency list \<Rightarrow> 32 word \<Rightarrow> 32 word" where
  "mask_after g c outs inps om =
     fold (\<lambda>inp m. if int c \<in> set (producers_of (resource_of g inp))
                    then mask_with outs (ResID inp) m else m) inps om"

definition built_node :: "RenderGraph \<Rightarrow> nat \<Rightarrow> RenderNode \<Rightarrow> RenderNode" where
  "built_node g c node =
     node\<lparr>Indegree := Indegree node + (\<Sum>inp\<leftarrow>Inputs node. fan_in g inp)
                         - (\<Sum>inp\<leftarrow>Inputs node. int (times_produced_by g (int c) inp)),
           OutputMask := mask_after g c (Outputs node) (Inputs node) (OutputMask node)\<rparr>"

definition edge_count :: "RenderGraph \<Rightarrow> nat \<Rightarrow> nat \<Rightarrow> RenderNode \<Rightarrow> nat" where
  "edge_count g p c node = (\<Sum>inp\<leftarrow>Inputs node. edges_added p c (producers_of (resource_of g inp)))"


text \<open>
  A graph with fan-in and a ping-pong pass, as declared: pass 0 writes resource 10;
  pass 1 reads 10 and writes 11; pass 2 reads 11, 12 and 13 and writes 11 and 12.
  Resource 11 has the producers 1 and 2, resource 12 the producer 2, and resource 13
  has no producer in this frame.
\<close>

definition fan_in_graph :: RenderGraph where
  "fan_in_graph =
     \<lparr>m_frameResources = [\<lparr>ID = 10, Res = 1, State = 0x4, IsWindowSizeDependent = False,
                            Producers = [0, - 1], CurrProdIdx = 1\<rparr>,
                          \<lparr>ID = 11, Res = 2, State = 0x4, IsWindowSizeDependent = False,
                            Producers = [1, 2], CurrProdIdx = 2\<rparr>,
                          \<lparr>ID = 12, Res = 3, State = 0x4, IsWindowSizeDependent = False,
                            Producers = [2, - 1], CurrProdIdx = 1\<rparr>,
                          \<lparr>ID = 13, Res = 4, State = 0x40, IsWindowSizeDependent = False,
                            Producers = [- 1, - 1], CurrProdIdx = 0\<rparr>,
                          \<lparr>ID = 18446744073709551615, Res = 0, State = 0,
                            IsWindowSizeDependent = False, Producers = [- 1, - 1],
                            CurrProdIdx = 0\<rparr>],
      m_prevFramesNumResources = 0, m_lastResIdx = 4,
      m_renderNodes =
        [\<lparr>Type = RENDER, ForceSeparateCmdList = False, Inputs = [],
           Outputs = [\<lparr>ResID = 10, ExpectedState = 0x8\<rparr>], Indegree = 0, NodeBatchIdx = - 1,
           Barriers = [], GpuDepSourceIdx = - 1, OutputMask = 0, HasUnsupportedBarrier = False\<rparr>,
         \<lparr>Type = RENDER, ForceSeparateCmdList = False,
           Inputs = [\<lparr>ResID = 10, ExpectedState = 0x40\<rparr>],
           Outputs = [\<lparr>ResID = 11, ExpectedState = 0x8\<rparr>], Indegree = 0, NodeBatchIdx = - 1,
           Barriers = [], GpuDepSourceIdx = - 1, OutputMask = 0, HasUnsupportedBarrier = False\<rparr>,
         \<lparr>Type = RENDER, ForceSeparateCmdList = False,
           Inputs = [\<lparr>ResID = 11, ExpectedState = 0x40\<rparr>, \<lparr>ResID = 12, ExpectedState = 0x40\<rparr>,
                     \<lparr>ResID = 13, ExpectedState = 0x40\<rparr>],
           Outputs = [\<lparr>ResID = 11, ExpectedState = 0x8\<rparr>, \<lparr>ResID = 12, ExpectedState = 0x8\<rparr>],
           Indegree = 0, NodeBatchIdx = - 1,
           Barriers = [], GpuDepSourceIdx = - 1, OutputMask = 0, HasUnsupportedBarrier = False\<rparr>,
         \<lparr>Type = RENDER, ForceSeparateCmdList = False, Inputs = [], Outputs = [], Indegree = 0,
           NodeBatchIdx = - 1, Barriers = [], GpuDepSourceIdx = - 1, OutputMask = 0,
           HasUnsupportedBarrier = False\<rparr>],
      m_currRenderPassIdx = 3, m_mapping = [- 1, - 1, - 1, - 1],
      m_inBeginEndBlock = True, m_inPreRegister = False\<rparr>"

text \<open>
  The invariant of the topological-sort loop: nothing is in \<open>sorted\<close> twice, every
  entry is a node handle, and a node that is in \<open>sorted\<close> has an in-degree of at most
  zero (it entered with in-degree zero and is only decremented afterwards).
\<close>

definition kahn_inv :: "nat \<Rightarrow> RenderNode list \<times> nat list \<Rightarrow> bool" where
  "kahn_inv n st =
     (case st of (nodes, srt) \<Rightarrow>
        n \<le> length nodes \<and> distinct srt \<and> set srt \<subseteq> {0..<n} \<and>
        list_all (\<lambda>v. Indegree (nodes ! v) \<le> 0) srt)"

text \<open>
  The node table and the adjacency table that \<open>Build\<close> hands to \<open>Sort\<close> for
  \<open>fan_in_graph\<close>: the edges are 0 \<rightarrow> 1 and 1 \<rightarrow> 2, the ping-pong pass 2 has both
  output-mask bits set.
\<close>

definition fan_in_built :: "RenderNode list" where
  "fan_in_built =
     [(m_renderNodes fan_in_graph ! 0)\<lparr>Indegree := 0\<rparr>,
      (m_renderNodes fan_in_graph ! 1)\<lparr>Indegree := 1\<rparr>,
      (m_renderNodes fan_in_graph ! 2)\<lparr>Indegree := 1, OutputMask := 3\<rparr>,
      m_renderNodes fan_in_graph ! 3]"

definition fan_in_adjacency :: "nat list list" where
  "fan_in_adjacency = [[1], [2], [], []]"

text \<open>
  Two passes without inputs or outputs: both are in the frontier and in batch 0.
\<close>

definition two_independent :: RenderGraph where
  "two_independent =
     \<lparr>m_frameResources = [empty_slot],
      m_prevFramesNumResources = 0, m_lastResIdx = 0,
      m_renderNodes = [fresh_node RENDER, fresh_node COMPUTE],
      m_currRenderPassIdx = 2, m_mapping = [- 1, - 1],
      m_inBeginEndBlock = True, m_inPreRegister = False\<rparr>"

section \<open>The declared graph as a relation\<close>

text \<open>
  The edges that the adjacency table holds for the first \<open>n\<close> node slots, the number
  of edges into a node from the nodes outside a set \<open>P\<close> of processed nodes, and the
  invariant of the topological sort that ties the in-degree fields to these counts:
  while the adjacency list of a node is being processed, \<open>rest\<close> is the part of it
  still to come.
\<close>

definition edges_of :: "nat \<Rightarrow> nat list list \<Rightarrow> (nat \<times> nat) set" where
  "edges_of n adj = {(u, v). u < n \<and> v \<in> set (adj ! u)}"

definition unprocessed_in :: "nat \<Rightarrow> nat list list \<Rightarrow> nat set \<Rightarrow> nat \<Rightarrow> nat" where
  "unprocessed_in n adj P v = (\<Sum>u \<in> {0..<n} - P. count_list (adj ! u) v)"

definition kahn_count_inv ::
  "nat \<Rightarrow> nat list list \<Rightarrow> nat set \<Rightarrow> nat list \<Rightarrow> RenderNode list \<times> nat list \<Rightarrow> bool"
where
  "kahn_count_inv n adj P rest st =
     (case st of (nodes, srt) \<Rightarrow>
        n \<le> length nodes \<and> distinct srt \<and> set srt \<subseteq> {0..<n} \<and>
        (\<forall>v < n. Indegree (nodes ! v) = int (count_list rest v + unprocessed_in n adj P v)) \<and>
        (\<forall>v < n. v \<in> set srt \<longleftrightarrow> Indegree (nodes ! v) = 0) \<and>
        (\<forall>v < n. Indegree (nodes ! v) \<le> 32767))"

text \<open>
  A declared graph is well formed when every producer list that an input of a
  registered node refers to holds handles of registered nodes only, as \<open>AddOutput\<close>
  writes them.
\<close>

definition producers_valid :: "RenderGraph \<Rightarrow> bool" where
  "producers_valid g \<longleftrightarrow>
     (\<forall>c < nat (m_currRenderPassIdx g).
        \<forall>inp \<in> set (Inputs (m_renderNodes g ! c)).
          0 \<le> CurrProdIdx (resource_of g inp) \<and>
          (\<forall>h \<in> set (producers_of (resource_of g inp)). 0 \<le> h \<and> h < m_currRenderPassIdx g))"

section \<open>InsertResourceBarriers\<close>

text \<open>
  The two cursors \<open>lastDirQueueHandle\<close> and \<open>lastComputeQueueHandle\<close> and the
  helper \<open>getLastSyncedIdx\<close>, which selects one of them by the type of the node: an
  async-compute node reads and writes the direct-queue cursor, every other node the
  compute-queue cursor.
\<close>

record sync_cursors =
  lastDirQueueHandle :: int
  lastComputeQueueHandle :: int

definition getLastSyncedIdx :: "RENDER_NODE_TYPE \<Rightarrow> sync_cursors \<Rightarrow> int" where
  "getLastSyncedIdx t c =
     (if t = ASYNC_COMPUTE then lastDirQueueHandle c else lastComputeQueueHandle c)"

definition setLastSyncedIdx :: "RENDER_NODE_TYPE \<Rightarrow> int \<Rightarrow> sync_cursors \<Rightarrow> sync_cursors" where
  "setLastSyncedIdx t v c =
     (if t = ASYNC_COMPUTE then c\<lparr>lastDirQueueHandle := v\<rparr> else c\<lparr>lastComputeQueueHandle := v\<rparr>)"

text \<open>The initial values in the source: both cursors start at \<open>0\<close>.\<close>

definition initial_cursors :: sync_cursors where
  "initial_cursors = \<lparr>lastDirQueueHandle = 0, lastComputeQueueHandle = 0\<rparr>"

text \<open>
  Case a, one producer of one input of node \<open>currNode\<close>: the state is
  \<open>largestProducerSortedHandle.Val\<close>. Handles that index outside \<open>m_mapping\<close> or the
  node table stop the model.
\<close>

definition barrier_producer :: "RenderGraph \<Rightarrow> nat \<Rightarrow> int \<Rightarrow> int \<Rightarrow> failure + int" where
  "barrier_producer g currNode unsortedHandle largest =
     (if \<not> (0 \<le> unsortedHandle \<and> nat unsortedHandle < length (m_mapping g)) then
        Inl ''m_mapping: index out of range''
      else
        (let sortedHandle = m_mapping g ! nat unsortedHandle in
         if \<not> (0 \<le> sortedHandle \<and> nat sortedHandle < length (m_renderNodes g)) then
           Inl ''m_renderNodes: index out of range''
         else
           (let node = m_renderNodes g ! currNode;
                isAsyncCompute = (Type node = ASYNC_COMPUTE);
                producer = m_renderNodes g ! nat sortedHandle;
                producerOnDifferentQueue =
                  ((isAsyncCompute \<and> Type producer \<noteq> ASYNC_COMPUTE) \<or>
                   (\<not> isAsyncCompute \<and> Type producer = ASYNC_COMPUTE))
            in
            if producerOnDifferentQueue then
              (if \<not> NodeBatchIdx producer < NodeBatchIdx node then Inl ''Invalid graph''
               else Inr (max largest sortedHandle))
            else Inr largest)))"

text \<open>One input of node \<open>currNode\<close>: the transition barrier, then case a.\<close>

definition barrier_input ::
  "nat \<Rightarrow> Dependency \<Rightarrow> RenderGraph \<times> int \<Rightarrow> failure + RenderGraph \<times> int"
where
  "barrier_input currNode currInputRes st =
     (case st of (g, largest) \<Rightarrow>
        if ResID currInputRes < DUMMY_RES_COUNT then Inr (g, largest)
        else
          (let inputFrameResIdx = FindFrameResource1 g (ResID currInputRes) in
           if inputFrameResIdx = - 1 then Inl ''Resource was not found.''
           else
             (let r = m_frameResources g ! nat inputFrameResIdx;
                  node = m_renderNodes g ! currNode;
                  isAsyncCompute = (Type node = ASYNC_COMPUTE);
                  inputResState = State r;
                  g1 = (if inputResState AND ExpectedState currInputRes = 0 then
                          g\<lparr>m_renderNodes := (m_renderNodes g)[currNode :=
                               node\<lparr>HasUnsupportedBarrier := (HasUnsupportedBarrier node \<or>
                                       (isAsyncCompute \<and> inputResState AND INVALID_COMPUTE_STATES \<noteq> 0)),
                                     Barriers := Barriers node @
                                       [\<lparr>pResource = Res r, StateBefore = inputResState,
                                         StateAfter = ExpectedState currInputRes\<rparr>]\<rparr>],
                            m_frameResources := (m_frameResources g)[nat inputFrameResIdx :=
                               r\<lparr>State := ExpectedState currInputRes\<rparr>]\<rparr>
                        else g)
              in
              if CurrProdIdx r > MAX_NUM_PRODUCERS r then Inl ''Producers: index out of range''
              else
                (case fold_err (barrier_producer g1 currNode) (producers_of r) largest of
                   Inl e \<Rightarrow> Inl e
                 | Inr largest' \<Rightarrow> Inr (g1, largest')))))"

text \<open>Case b, after all inputs of the node.\<close>

definition case_b :: "nat \<Rightarrow> int \<Rightarrow> RenderGraph \<times> sync_cursors \<Rightarrow> RenderGraph \<times> sync_cursors" where
  "case_b currNode largest st =
     (case st of (g, c) \<Rightarrow>
        (let node = m_renderNodes g ! currNode in
         if largest \<noteq> - 1 \<and> getLastSyncedIdx (Type node) c < largest then
           (g\<lparr>m_renderNodes := (m_renderNodes g)[currNode := node\<lparr>GpuDepSourceIdx := largest\<rparr>]\<rparr>,
            setLastSyncedIdx (Type node) largest c)
         else (g, c)))"

text \<open>
  One output of node \<open>currNode\<close>; the state carries the counter \<open>i\<close> of the mask
  test \<open>(1 << i++) & node.OutputMask\<close>, which advances only for outputs that are not
  dummy resources. As in \<open>Build\<close>, the shift of the \<open>int\<close> 1 by \<open>i \<ge> 32\<close> is
  undefined, and the model stops there.
\<close>

definition barrier_output ::
  "nat \<Rightarrow> Dependency \<Rightarrow> RenderGraph \<times> nat \<Rightarrow> failure + RenderGraph \<times> nat"
where
  "barrier_output currNode currOutputRes st =
     (case st of (g, i) \<Rightarrow>
        if ResID currOutputRes < DUMMY_RES_COUNT then Inr (g, i)
        else if \<not> i < 32 then Inl ''OutputMask: shift count out of range''
        else
          (let node = m_renderNodes g ! currNode;
               isAsyncCompute = (Type node = ASYNC_COMPUTE);
               skipBarrier = (push_bit i 1 AND OutputMask node \<noteq> 0);
               outputFrameResIdx = FindFrameResource1 g (ResID currOutputRes)
           in
           if outputFrameResIdx = - 1 then Inl ''Resource was not found.''
           else
             (let r = m_frameResources g ! nat outputFrameResIdx;
                  outputResState = State r;
                  node1 = (if \<not> skipBarrier \<and> State r AND ExpectedState currOutputRes = 0 then
                             node\<lparr>HasUnsupportedBarrier := (HasUnsupportedBarrier node \<or>
                                     (isAsyncCompute \<and> outputResState AND INVALID_COMPUTE_STATES \<noteq> 0)),
                                   Barriers := Barriers node @
                                     [\<lparr>pResource = Res r, StateBefore = outputResState,
                                       StateAfter = ExpectedState currOutputRes\<rparr>]\<rparr>
                           else node)
              in
              Inr (g\<lparr>m_renderNodes := (m_renderNodes g)[currNode := node1],
                     m_frameResources := (m_frameResources g)[nat outputFrameResIdx :=
                        r\<lparr>State := ExpectedState currOutputRes\<rparr>]\<rparr>,
                   Suc i))))"

text \<open>
  One iteration of the loop over the nodes in execution order: inputs (starting from
  the invalid handle \<open>-1\<close> for \<open>largestProducerSortedHandle\<close>), case b, outputs.
\<close>

definition barrier_node ::
  "nat \<Rightarrow> RenderGraph \<times> sync_cursors \<Rightarrow> failure + RenderGraph \<times> sync_cursors"
where
  "barrier_node currNode st =
     (case st of (g, c) \<Rightarrow>
        (case fold_err (barrier_input currNode) (Inputs (m_renderNodes g ! currNode)) (g, - 1) of
           Inl e \<Rightarrow> Inl e
         | Inr (g1, largest) \<Rightarrow>
             (case case_b currNode largest (g1, c) of
                (g2, c2) \<Rightarrow>
                  (case fold_err (barrier_output currNode) (Outputs (m_renderNodes g2 ! currNode)) (g2, 0) of
                     Inl e \<Rightarrow> Inl e
                   | Inr (g3, i) \<Rightarrow> Inr (g3, c2)))))"

text \<open>
  The whole function. The id of the current back buffer comes from the renderer and
  is a parameter.
\<close>

definition InsertResourceBarriers :: "RenderGraph \<Rightarrow> nat \<Rightarrow> failure + RenderGraph" where
  "InsertResourceBarriers g backBufferID =
     (case fold_err barrier_node [0..<nat (m_currRenderPassIdx g)] (g, initial_cursors) of
        Inl e \<Rightarrow> Inl e
      | Inr (g1, c) \<Rightarrow>
          (let idx = FindFrameResource1 g1 backBufferID in
           if idx \<noteq> - 1 then
             Inr (g1\<lparr>m_frameResources := (m_frameResources g1)[nat idx :=
                    (m_frameResources g1 ! nat idx)\<lparr>State := D3D12_RESOURCE_STATE_PRESENT\<rparr>]\<rparr>)
           else Inr g1))"

section \<open>Example graphs\<close>

definition dep :: "nat \<Rightarrow> D3D12_RESOURCE_STATES \<Rightarrow> Dependency" where
  "dep path st = \<lparr>ResID = path, ExpectedState = st\<rparr>"

text \<open>
  Scenario S2 as declared. Queue 1 is the direct queue with the passes A, B, C
  (handles 0, 1, 2); queue 2 is the async-compute queue with X, Y, Z (handles 3, 4, 5).
  A writes resource 10, B writes 11, C writes 12 (as unordered access); X reads 10,
  Y reads 11, Z reads 12 (as non-pixel shader resource): the edges A\<rightarrow>X, B\<rightarrow>Y, C\<rightarrow>Z.
\<close>

definition S2_declared :: RenderGraph where
  "S2_declared =
     \<lparr>m_frameResources = [slot 10 1 0x8 [0], slot 11 2 0x8 [1], slot 12 3 0x8 [2], empty_slot],
      m_prevFramesNumResources = 0, m_lastResIdx = 3,
      m_renderNodes =
        [(fresh_node RENDER)\<lparr>Outputs := [dep 10 0x8]\<rparr>,
         (fresh_node RENDER)\<lparr>Outputs := [dep 11 0x8]\<rparr>,
         (fresh_node RENDER)\<lparr>Outputs := [dep 12 0x8]\<rparr>,
         (fresh_node ASYNC_COMPUTE)\<lparr>Inputs := [dep 10 0x40]\<rparr>,
         (fresh_node ASYNC_COMPUTE)\<lparr>Inputs := [dep 11 0x40]\<rparr>,
         (fresh_node ASYNC_COMPUTE)\<lparr>Inputs := [dep 12 0x40]\<rparr>],
      m_currRenderPassIdx = 6, m_mapping = [- 1, - 1, - 1, - 1, - 1, - 1],
      m_inBeginEndBlock = True, m_inPreRegister = False\<rparr>"

text \<open>
  The stages of \<open>Build\<close> on S2: the node table with its in-degrees and the adjacency
  table after the edge construction, the node table after the topological sort and the
  batch assignment (the topological order is the handle order 0, ..., 5, which is also
  ordered by batch index), and the graph after \<open>Sort\<close>.
\<close>

definition S2_built :: "RenderNode list" where
  "S2_built =
     [(fresh_node RENDER)\<lparr>Outputs := [dep 10 0x8]\<rparr>,
      (fresh_node RENDER)\<lparr>Outputs := [dep 11 0x8]\<rparr>,
      (fresh_node RENDER)\<lparr>Outputs := [dep 12 0x8]\<rparr>,
      (fresh_node ASYNC_COMPUTE)\<lparr>Inputs := [dep 10 0x40], Indegree := 1\<rparr>,
      (fresh_node ASYNC_COMPUTE)\<lparr>Inputs := [dep 11 0x40], Indegree := 1\<rparr>,
      (fresh_node ASYNC_COMPUTE)\<lparr>Inputs := [dep 12 0x40], Indegree := 1\<rparr>]"

definition S2_adjacency :: "nat list list" where
  "S2_adjacency = [[3], [4], [5], [], [], []]"

definition S2_batched :: "RenderNode list" where
  "S2_batched =
     [(fresh_node RENDER)\<lparr>Outputs := [dep 10 0x8], NodeBatchIdx := 0\<rparr>,
      (fresh_node RENDER)\<lparr>Outputs := [dep 11 0x8], NodeBatchIdx := 0\<rparr>,
      (fresh_node RENDER)\<lparr>Outputs := [dep 12 0x8], NodeBatchIdx := 0\<rparr>,
      (fresh_node ASYNC_COMPUTE)\<lparr>Inputs := [dep 10 0x40], NodeBatchIdx := 1\<rparr>,
      (fresh_node ASYNC_COMPUTE)\<lparr>Inputs := [dep 11 0x40], NodeBatchIdx := 1\<rparr>,
      (fresh_node ASYNC_COMPUTE)\<lparr>Inputs := [dep 12 0x40], NodeBatchIdx := 1\<rparr>]"

definition S2_sorted :: RenderGraph where
  "S2_sorted = S2_declared\<lparr>m_mapping := [0, 1, 2, 3, 4, 5], m_renderNodes := S2_batched\<rparr>"

text \<open>
  The second frame of a graph with one resource: the table holds id 7 with native
  handle 5 from the previous frame, and the graph is in its pre-register phase.
\<close>

definition one_resource_graph :: RenderGraph where
  "one_resource_graph =
     \<lparr>m_frameResources = [slot 7 5 0x4 [], empty_slot, empty_slot],
      m_prevFramesNumResources = 1, m_lastResIdx = 1, m_renderNodes = [fresh_node RENDER],
      m_currRenderPassIdx = 0, m_mapping = [- 1],
      m_inBeginEndBlock = True, m_inPreRegister = True\<rparr>"

text \<open>
  A ping-pong pass as declared: pass 0 reads resource 10 as non-pixel shader resource
  and writes it as unordered access; the resource is in the unordered-access state and
  its producer list holds pass 0.
\<close>

definition pingpong_declared :: RenderGraph where
  "pingpong_declared =
     \<lparr>m_frameResources = [slot 10 1 0x8 [0], empty_slot],
      m_prevFramesNumResources = 0, m_lastResIdx = 1,
      m_renderNodes = [(fresh_node RENDER)\<lparr>Inputs := [dep 10 0x40], Outputs := [dep 10 0x8]\<rparr>],
      m_currRenderPassIdx = 1, m_mapping = [- 1],
      m_inBeginEndBlock = True, m_inPreRegister = False\<rparr>"

text \<open>
  A graph in its declaration phase with two registered passes and the resources 10
  and 11.
\<close>

definition two_pass_graph :: RenderGraph where
  "two_pass_graph =
     \<lparr>m_frameResources = [slot 10 1 0x4 [], slot 11 2 0x4 [], empty_slot],
      m_prevFramesNumResources = 0, m_lastResIdx = 2,
      m_renderNodes = [fresh_node RENDER, fresh_node ASYNC_COMPUTE],
      m_currRenderPassIdx = 2, m_mapping = [- 1, - 1],
      m_inBeginEndBlock = True, m_inPreRegister = False\<rparr>"

text \<open>The stages of \<open>Build\<close> on the ping-pong pass.\<close>

definition pingpong_built :: "RenderNode list" where
  "pingpong_built =
     [(fresh_node RENDER)\<lparr>Inputs := [dep 10 0x40], Outputs := [dep 10 0x8], OutputMask := 1\<rparr>]"

definition pingpong_sorted :: RenderGraph where
  "pingpong_sorted =
     pingpong_declared\<lparr>m_mapping := [0],
        m_renderNodes := [(fresh_node RENDER)\<lparr>Inputs := [dep 10 0x40], Outputs := [dep 10 0x8],
                            OutputMask := 1, NodeBatchIdx := 0\<rparr>]\<rparr>"

section \<open>std::sort\<close>

text \<open>
  \<open>Sort\<close> calls \<open>std::sort\<close> of the C++ standard library on \<open>sorted[0 .. numNodes)\<close>.
  The library is not code of the repository. Its contract is the relation
  \<open>std_sort_result\<close>; which of the admitted results a run produces depends on the
  implementation. This section is the implementation of GNU libstdc++
  (\<open>bits/stl_algo.h\<close>, \<open>bits/stl_heap.h\<close>): introsort with a median-of-three pivot, a
  heap sort when the depth limit \<open>2 * lg n\<close> is used up, and a final insertion sort,
  with the threshold \<open>_S_threshold = 16\<close>. The names are the library's without the
  leading underscores; \<open>cmp\<close> stands for \<open>__comp\<close>, \<open>lst\<close> for \<open>__last\<close> and
  \<open>cutpos\<close> for \<open>__cut\<close>. An iterator is an index into the array, the list \<open>xs\<close>.
  The unguarded loops of the library rely on a sentinel inside the array; a read
  outside the array stops the model.
\<close>

definition iter_swap :: "nat \<Rightarrow> nat \<Rightarrow> 'a list \<Rightarrow> 'a list" where
  "iter_swap a b xs = xs[a := xs ! b, b := xs ! a]"

text \<open>
  \<open>__move_median_to_first(result, a, b, c)\<close>: the median of the three elements is
  swapped to \<open>result\<close>.
\<close>

definition move_median_to_first ::
  "('a \<Rightarrow> 'a \<Rightarrow> bool) \<Rightarrow> nat \<Rightarrow> nat \<Rightarrow> nat \<Rightarrow> nat \<Rightarrow> 'a list \<Rightarrow> 'a list"
where
  "move_median_to_first cmp result a b c xs =
     (if cmp (xs ! a) (xs ! b) then
        (if cmp (xs ! b) (xs ! c) then iter_swap result b xs
         else if cmp (xs ! a) (xs ! c) then iter_swap result c xs
         else iter_swap result a xs)
      else if cmp (xs ! a) (xs ! c) then iter_swap result a xs
      else if cmp (xs ! b) (xs ! c) then iter_swap result c xs
      else iter_swap result b xs)"

text \<open>
  \<open>__unguarded_partition(first, last, pivot)\<close>: its two inner loops
  \<open>while (comp(first, pivot)) ++first;\<close> and \<open>while (comp(pivot, last)) --last;\<close>, and the
  outer loop \<open>while (true) { ...; --last; ...; if (!(first < last)) return first;
  iter_swap(first, last); ++first; }\<close>, which returns the cut position.
\<close>

function partition_up :: "('a \<Rightarrow> 'a \<Rightarrow> bool) \<Rightarrow> 'a list \<Rightarrow> nat \<Rightarrow> nat \<Rightarrow> failure + nat" where
  "partition_up cmp xs pivot first =
     (if \<not> first < length xs then Inl ''std::sort: read outside the array''
      else if cmp (xs ! first) (xs ! pivot) then partition_up cmp xs pivot (Suc first)
      else Inr first)"
  by pat_completeness auto
termination
  by (relation "measure (\<lambda>(cmp, xs, pivot, first). length xs - first)") auto

declare partition_up.simps [simp del]

function partition_down :: "('a \<Rightarrow> 'a \<Rightarrow> bool) \<Rightarrow> 'a list \<Rightarrow> nat \<Rightarrow> nat \<Rightarrow> failure + nat" where
  "partition_down cmp xs pivot lst =
     (if cmp (xs ! pivot) (xs ! lst) then
        (if lst = 0 then Inl ''std::sort: read outside the array''
         else partition_down cmp xs pivot (lst - 1))
      else Inr lst)"
  by pat_completeness auto
termination
  by (relation "measure (\<lambda>(cmp, xs, pivot, lst). lst)") auto

declare partition_down.simps [simp del]

function unguarded_partition ::
  "('a \<Rightarrow> 'a \<Rightarrow> bool) \<Rightarrow> nat \<Rightarrow> nat \<Rightarrow> nat \<Rightarrow> 'a list \<Rightarrow> failure + nat \<times> 'a list"
where
  "unguarded_partition cmp first lst pivot xs =
     (case partition_up cmp xs pivot first of
        Inl e \<Rightarrow> Inl e
      | Inr f \<Rightarrow>
          if lst = 0 then Inl ''std::sort: read outside the array''
          else
            (case partition_down cmp xs pivot (lst - 1) of
               Inl e \<Rightarrow> Inl e
             | Inr l \<Rightarrow>
                 if \<not> f < l then Inr (f, xs)
                 else unguarded_partition cmp (Suc f) l pivot (iter_swap f l xs)))"
  by pat_completeness auto
termination
proof (relation "measure (\<lambda>(cmp, first, lst, pivot, xs). lst)", goal_cases)
  case 1
  show ?case by simp
next
  case (2 cmp first lst pivot xs f l)
  have le: "r \<le> n" if "partition_down cmp xs pivot n = Inr r" for n r
    using that
  proof (induction n)
    case 0
    then show ?case by (simp add: partition_down.simps[of _ _ _ 0] split: if_splits)
  next
    case (Suc n)
    from Suc.prems show ?case
      by (subst (asm) partition_down.simps) (auto split: if_splits dest: Suc.IH)
  qed
  from 2 le[of "lst - 1" l] show ?case by simp
qed

declare unguarded_partition.simps [simp del]

text \<open>
  \<open>__unguarded_partition_pivot(first, last)\<close>: the median of \<open>first + 1\<close>, the middle and
  \<open>last - 1\<close> goes to \<open>first\<close> and is the pivot for the rest of the range.
\<close>

definition unguarded_partition_pivot ::
  "('a \<Rightarrow> 'a \<Rightarrow> bool) \<Rightarrow> nat \<Rightarrow> nat \<Rightarrow> 'a list \<Rightarrow> failure + nat \<times> 'a list"
where
  "unguarded_partition_pivot cmp first lst xs =
     (let mid = first + (lst - first) div 2 in
      unguarded_partition cmp (first + 1) lst first
        (move_median_to_first cmp first (first + 1) mid (lst - 1) xs))"

text \<open>
  The heap functions of \<open>bits/stl_heap.h\<close>, on the range that starts at \<open>first\<close>:
  \<open>__push_heap\<close>, the loop and the tail of \<open>__adjust_heap\<close>, \<open>__make_heap\<close>,
  \<open>__pop_heap\<close> and \<open>__sort_heap\<close>. The indices are of the signed type
  \<open>ptrdiff_t\<close> in the library; \<open>(holeIndex - 1) / 2\<close> and \<open>(len - 1) / 2\<close> round
  towards zero there and are \<open>0\<close> for \<open>holeIndex = 0\<close> and \<open>len = 0\<close>, as the
  subtraction on \<open>nat\<close> gives it; \<open>(len - 2) / 2\<close> is computed on \<open>int\<close>, where it is
  exact for the even \<open>len\<close> it is tested for.
\<close>

function push_heap ::
  "('a \<Rightarrow> 'a \<Rightarrow> bool) \<Rightarrow> nat \<Rightarrow> nat \<Rightarrow> nat \<Rightarrow> 'a \<Rightarrow> 'a list \<Rightarrow> 'a list"
where
  "push_heap cmp first holeIndex topIndex val xs =
     (let parent = (holeIndex - 1) div 2 in
      if holeIndex > topIndex \<and> cmp (xs ! (first + parent)) val then
        push_heap cmp first parent topIndex val (xs[first + holeIndex := xs ! (first + parent)])
      else xs[first + holeIndex := val])"
  by pat_completeness auto
termination
  by (relation "measure (\<lambda>(cmp, first, holeIndex, topIndex, val, xs). holeIndex)") auto

declare push_heap.simps [simp del]

function adjust_heap_down ::
  "('a \<Rightarrow> 'a \<Rightarrow> bool) \<Rightarrow> nat \<Rightarrow> nat \<Rightarrow> nat \<Rightarrow> nat \<Rightarrow> 'a list \<Rightarrow> nat \<times> nat \<times> 'a list"
where
  "adjust_heap_down cmp first len holeIndex secondChild xs =
     (if secondChild < (len - 1) div 2 then
        (let sc = 2 * (secondChild + 1);
             sc1 = (if cmp (xs ! (first + sc)) (xs ! (first + (sc - 1))) then sc - 1 else sc)
         in adjust_heap_down cmp first len sc1 sc1 (xs[first + holeIndex := xs ! (first + sc1)]))
      else (holeIndex, secondChild, xs))"
  by pat_completeness auto
termination
  by (relation "measure (\<lambda>(cmp, first, len, holeIndex, secondChild, xs). len - secondChild)")
    (auto simp: Let_def)

declare adjust_heap_down.simps [simp del]

definition adjust_heap ::
  "('a \<Rightarrow> 'a \<Rightarrow> bool) \<Rightarrow> nat \<Rightarrow> nat \<Rightarrow> nat \<Rightarrow> 'a \<Rightarrow> 'a list \<Rightarrow> 'a list"
where
  "adjust_heap cmp first holeIndex len val xs =
     (case adjust_heap_down cmp first len holeIndex holeIndex xs of
        (hole1, secondChild, xs1) \<Rightarrow>
          if even len \<and> int secondChild = (int len - 2) div 2 then
            (let sc = 2 * (secondChild + 1) in
             push_heap cmp first (sc - 1) holeIndex val
               (xs1[first + hole1 := xs1 ! (first + (sc - 1))]))
          else push_heap cmp first hole1 holeIndex val xs1)"

function make_heap_loop ::
  "('a \<Rightarrow> 'a \<Rightarrow> bool) \<Rightarrow> nat \<Rightarrow> nat \<Rightarrow> nat \<Rightarrow> 'a list \<Rightarrow> 'a list"
where
  "make_heap_loop cmp first len parent xs =
     (let xs1 = adjust_heap cmp first parent len (xs ! (first + parent)) xs in
      if parent = 0 then xs1 else make_heap_loop cmp first len (parent - 1) xs1)"
  by pat_completeness auto
termination
  by (relation "measure (\<lambda>(cmp, first, len, parent, xs). parent)") auto

declare make_heap_loop.simps [simp del]

definition make_heap :: "('a \<Rightarrow> 'a \<Rightarrow> bool) \<Rightarrow> nat \<Rightarrow> nat \<Rightarrow> 'a list \<Rightarrow> 'a list" where
  "make_heap cmp first lst xs =
     (if lst - first < 2 then xs
      else make_heap_loop cmp first (lst - first) ((lst - first - 2) div 2) xs)"

definition pop_heap :: "('a \<Rightarrow> 'a \<Rightarrow> bool) \<Rightarrow> nat \<Rightarrow> nat \<Rightarrow> nat \<Rightarrow> 'a list \<Rightarrow> 'a list" where
  "pop_heap cmp first lst result xs =
     adjust_heap cmp first 0 (lst - first) (xs ! result) (xs[result := xs ! first])"

function sort_heap :: "('a \<Rightarrow> 'a \<Rightarrow> bool) \<Rightarrow> nat \<Rightarrow> nat \<Rightarrow> 'a list \<Rightarrow> 'a list" where
  "sort_heap cmp first lst xs =
     (if lst - first > 1 then
        sort_heap cmp first (lst - 1) (pop_heap cmp first (lst - 1) (lst - 1) xs)
      else xs)"
  by pat_completeness auto
termination
  by (relation "measure (\<lambda>(cmp, first, lst, xs). lst - first)") auto

declare sort_heap.simps [simp del]

text \<open>
  \<open>__heap_select(first, middle, last)\<close> and \<open>__partial_sort(first, middle, last)\<close>;
  \<open>__introsort_loop\<close> calls the latter with \<open>middle = last\<close>, a heap sort of the range.
\<close>

definition heap_select ::
  "('a \<Rightarrow> 'a \<Rightarrow> bool) \<Rightarrow> nat \<Rightarrow> nat \<Rightarrow> nat \<Rightarrow> 'a list \<Rightarrow> 'a list"
where
  "heap_select cmp first middle lst xs =
     fold (\<lambda>i ys. if cmp (ys ! i) (ys ! first) then pop_heap cmp first middle i ys else ys)
       [middle..<lst] (make_heap cmp first middle xs)"

definition partial_sort ::
  "('a \<Rightarrow> 'a \<Rightarrow> bool) \<Rightarrow> nat \<Rightarrow> nat \<Rightarrow> nat \<Rightarrow> 'a list \<Rightarrow> 'a list"
where
  "partial_sort cmp first middle lst xs =
     sort_heap cmp first middle (heap_select cmp first middle lst xs)"

text \<open>
  \<open>__introsort_loop(first, last, depth_limit)\<close>:
  \<open>while (last - first > 16) { if (depth_limit == 0) { __partial_sort(first, last, last);
  return; } --depth_limit; cut = __unguarded_partition_pivot(first, last);
  __introsort_loop(cut, last, depth_limit); last = cut; }\<close>.
\<close>

function introsort_loop ::
  "('a \<Rightarrow> 'a \<Rightarrow> bool) \<Rightarrow> nat \<Rightarrow> nat \<Rightarrow> nat \<Rightarrow> 'a list \<Rightarrow> failure + 'a list"
where
  "introsort_loop cmp first lst depth_limit xs =
     (if \<not> lst - first > 16 then Inr xs
      else if depth_limit = 0 then Inr (partial_sort cmp first lst lst xs)
      else
        (case unguarded_partition_pivot cmp first lst xs of
           Inl e \<Rightarrow> Inl e
         | Inr (cutpos, xs1) \<Rightarrow>
             (case introsort_loop cmp cutpos lst (depth_limit - 1) xs1 of
                Inl e \<Rightarrow> Inl e
              | Inr xs2 \<Rightarrow> introsort_loop cmp first cutpos (depth_limit - 1) xs2)))"
  by pat_completeness auto
termination
  by (relation "measure (\<lambda>(cmp, first, lst, depth_limit, xs). depth_limit)") auto

declare introsort_loop.simps [simp del]

text \<open>
  The insertion sorts: \<open>__unguarded_linear_insert(last)\<close> with its loop
  \<open>while (comp(val, next)) { *last = *next; last = next; --next; }\<close>,
  \<open>std::move_backward\<close>, one iteration of the loop of \<open>__insertion_sort\<close> and the
  function itself, \<open>__unguarded_insertion_sort\<close> and \<open>__final_insertion_sort\<close>.
\<close>

function unguarded_linear_insert_loop ::
  "('a \<Rightarrow> 'a \<Rightarrow> bool) \<Rightarrow> 'a \<Rightarrow> nat \<Rightarrow> 'a list \<Rightarrow> failure + 'a list"
where
  "unguarded_linear_insert_loop cmp val lst xs =
     (if lst = 0 then Inl ''std::sort: read outside the array''
      else if cmp val (xs ! (lst - 1)) then
        unguarded_linear_insert_loop cmp val (lst - 1) (xs[lst := xs ! (lst - 1)])
      else Inr (xs[lst := val]))"
  by pat_completeness auto
termination
  by (relation "measure (\<lambda>(cmp, val, lst, xs). lst)") auto

declare unguarded_linear_insert_loop.simps [simp del]

definition unguarded_linear_insert ::
  "('a \<Rightarrow> 'a \<Rightarrow> bool) \<Rightarrow> nat \<Rightarrow> 'a list \<Rightarrow> failure + 'a list"
where
  "unguarded_linear_insert cmp lst xs = unguarded_linear_insert_loop cmp (xs ! lst) lst xs"

definition move_backward :: "nat \<Rightarrow> nat \<Rightarrow> nat \<Rightarrow> 'a list \<Rightarrow> 'a list" where
  "move_backward first lst d_last xs =
     fold (\<lambda>k ys. ys[d_last - k := ys ! (lst - k)]) [1..<Suc (lst - first)] xs"

definition insertion_step ::
  "('a \<Rightarrow> 'a \<Rightarrow> bool) \<Rightarrow> nat \<Rightarrow> nat \<Rightarrow> 'a list \<Rightarrow> failure + 'a list"
where
  "insertion_step cmp first i xs =
     (if cmp (xs ! i) (xs ! first) then Inr ((move_backward first i (i + 1) xs)[first := xs ! i])
      else unguarded_linear_insert cmp i xs)"

definition insertion_sort ::
  "('a \<Rightarrow> 'a \<Rightarrow> bool) \<Rightarrow> nat \<Rightarrow> nat \<Rightarrow> 'a list \<Rightarrow> failure + 'a list"
where
  "insertion_sort cmp first lst xs =
     (if first = lst then Inr xs
      else fold_err (insertion_step cmp first) [first + 1..<lst] xs)"

definition unguarded_insertion_sort ::
  "('a \<Rightarrow> 'a \<Rightarrow> bool) \<Rightarrow> nat \<Rightarrow> nat \<Rightarrow> 'a list \<Rightarrow> failure + 'a list"
where
  "unguarded_insertion_sort cmp first lst xs =
     fold_err (unguarded_linear_insert cmp) [first..<lst] xs"

definition final_insertion_sort ::
  "('a \<Rightarrow> 'a \<Rightarrow> bool) \<Rightarrow> nat \<Rightarrow> nat \<Rightarrow> 'a list \<Rightarrow> failure + 'a list"
where
  "final_insertion_sort cmp first lst xs =
     (if lst - first > 16 then
        (case insertion_sort cmp first (first + 16) xs of
           Inl e \<Rightarrow> Inl e
         | Inr xs1 \<Rightarrow> unguarded_insertion_sort cmp (first + 16) lst xs1)
      else insertion_sort cmp first lst xs)"

text \<open>
  \<open>std::__lg(n)\<close>, the position of the highest bit of \<open>n\<close>, and \<open>std::__sort\<close>, which
  \<open>std::sort(first, last, comp)\<close> calls, on the whole list.
\<close>

fun lg :: "nat \<Rightarrow> nat" where
  "lg n = (if n < 2 then 0 else Suc (lg (n div 2)))"

declare lg.simps [simp del]

definition std_sort :: "('a \<Rightarrow> 'a \<Rightarrow> bool) \<Rightarrow> 'a list \<Rightarrow> failure + 'a list" where
  "std_sort cmp xs =
     (if length xs = 0 then Inr xs
      else
        (case introsort_loop cmp 0 (length xs) (lg (length xs) * 2) xs of
           Inl e \<Rightarrow> Inl e
         | Inr xs1 \<Rightarrow> final_insertion_sort cmp 0 (length xs) xs1))"

text \<open>
  \<open>RenderGraph::Sort\<close> with \<open>std::sort\<close> as libstdc++ implements it: one of the runs
  that the relation \<open>Sort\<close> admits.
\<close>

definition Sort_libstdcxx :: "nat list list \<Rightarrow> RenderGraph \<Rightarrow> failure + RenderGraph" where
  "Sort_libstdcxx adj g =
     (case Sort_topological (nat (m_currRenderPassIdx g)) adj (m_renderNodes g) of
        Inl e \<Rightarrow> Inl e
      | Inr (topo, nodes) \<Rightarrow>
          (case std_sort (\<lambda>lhs rhs. NodeBatchIdx (nodes ! lhs) < NodeBatchIdx (nodes ! rhs)) topo of
             Inl e \<Rightarrow> Inl e
           | Inr srt \<Rightarrow> Inr (g\<lparr>m_mapping := fill_mapping srt (m_mapping g),
                               m_renderNodes := shuffle srt nodes\<rparr>)))"

text \<open>
  Seventeen passes without inputs or outputs, in a graph with room for seventeen
  passes (\<open>MAX_NUM_RENDER_PASSES\<close> is declared in \<open>RenderGraph.h\<close> and is the length
  of the node table here): all of them are in the frontier and in batch 0, and the
  range is one element longer than the threshold of the insertion sort.
  \<open>seventeen_sorted\<close> is the graph after \<open>Sort\<close>.
\<close>

definition seventeen_independent :: RenderGraph where
  "seventeen_independent =
     \<lparr>m_frameResources = [empty_slot],
      m_prevFramesNumResources = 0, m_lastResIdx = 0,
      m_renderNodes = replicate 17 (fresh_node RENDER),
      m_currRenderPassIdx = 17, m_mapping = replicate 17 (- 1),
      m_inBeginEndBlock = True, m_inPreRegister = False\<rparr>"

definition seventeen_sorted :: RenderGraph where
  "seventeen_sorted =
     seventeen_independent\<lparr>
       m_mapping := [9, 16, 15, 14, 13, 12, 11, 10, 0, 8, 7, 6, 5, 4, 3, 2, 1],
       m_renderNodes := replicate 17 ((fresh_node RENDER)\<lparr>NodeBatchIdx := 0\<rparr>)\<rparr>"

section \<open>Properties of small-node merging\<close>

text \<open>
  Claim C3. After small-node merging a run of exactly one mergeable aggregate is left
  un-merged: its \<open>MergeStart\<close> flag is cleared and its \<open>MergedCmdListIdx\<close> is back
  at \<open>-1\<close>, however many merge chains were completed before it.

  The source clears the flag but writes \<open>prev.MergedCmdListIdx--\<close>, which gives
  \<open>-1\<close> only while \<open>cmdListIdx\<close> is still \<open>0\<close>. With one chain completed
  earlier (aggregates 0 and 1 below) the lone graphics aggregate 3 behind an
  async-compute aggregate ends with \<open>MergedCmdListIdx = 0\<close>, the index of the chain
  that aggregates 0 and 1 share, although it carries neither bracket flag. No assertion
  fails on the way, the self-check of debug builds included.
\<close>

theorem MergeSmallNodes_single_after_chain:
  "MergeSmallNodes [fresh_agg False False [1], fresh_agg False False [2],
                    fresh_agg True False [3], fresh_agg False False [4]] =
   Inr ([\<lparr>IsAsyncCompute = False, ForceSeparate = False, Dlgs = [1],
      MergeStart = True, MergeEnd = False, MergedCmdListIdx = 0\<rparr>,
     \<lparr>IsAsyncCompute = False, ForceSeparate = False, Dlgs = [2],
      MergeStart = False, MergeEnd = True, MergedCmdListIdx = 0\<rparr>,
     \<lparr>IsAsyncCompute = True, ForceSeparate = False, Dlgs = [3],
      MergeStart = False, MergeEnd = False, MergedCmdListIdx = - 1\<rparr>,
     \<lparr>IsAsyncCompute = False, ForceSeparate = False, Dlgs = [4],
      MergeStart = False, MergeEnd = False, MergedCmdListIdx = 0\<rparr>], 1)"
  by (simp add: MergeSmallNodes_def merge_step_def close_run_def merge_validation_step_def
      mergeable_def fresh_agg_def merge_init_def upt_rec)

section \<open>Properties of the worker pool\<close>

lemma PumpUntilEmpty_drains:
  "m_numTasksInQueue s = int (length (m_taskQueue s)) \<Longrightarrow>
   PumpUntilEmpty s = Some (fold pump_task (m_taskQueue s) (s\<lparr>m_taskQueue := []\<rparr>))"
proof (induction "m_taskQueue s" arbitrary: s)
  case Nil
  then show ?case by (subst PumpUntilEmpty.simps) simp
next
  case (Cons t q)
  let ?s1 = "pump_task t (s\<lparr>m_taskQueue := q\<rparr>)"
  have q1: "m_taskQueue ?s1 = q" by (simp add: pump_task_def)
  have n1: "m_numTasksInQueue ?s1 = int (length (m_taskQueue ?s1))"
    using Cons.prems Cons.hyps(2)[symmetric] by (simp add: pump_task_def)
  have "PumpUntilEmpty ?s1 = Some (fold pump_task (m_taskQueue ?s1) (?s1\<lparr>m_taskQueue := []\<rparr>))"
    using Cons.hyps(1)[of ?s1] q1 n1 by simp
  moreover have "PumpUntilEmpty s = PumpUntilEmpty ?s1"
    using Cons.prems Cons.hyps(2)[symmetric] by (subst PumpUntilEmpty.simps) simp
  moreover have "?s1\<lparr>m_taskQueue := []\<rparr> = pump_task t (s\<lparr>m_taskQueue := []\<rparr>)"
    by (simp add: pump_task_def)
  ultimately show ?case using Cons.hyps(2)[symmetric] q1 by simp
qed

lemma fold_pump_task_fields:
  "m_taskQueue (fold pump_task q s) = m_taskQueue s \<and>
   m_numTasksInQueue (fold pump_task q s) = m_numTasksInQueue s - int (length q) \<and>
   m_numTasksFinished (fold pump_task q s) = m_numTasksFinished s + int (length q) \<and>
   m_numTasksToFinishTarget (fold pump_task q s) = m_numTasksToFinishTarget s"
  by (induction q arbitrary: s) (simp_all add: pump_task_def)

text \<open>
  Claim C5. A background task never waits on inbound dependency signals and never
  signals outbound dependents, whether a worker thread runs it or \<open>PumpUntilEmpty\<close>
  does on a thread outside the pool.

  \<open>WorkerThread\<close> guards both calls with the priority test; \<open>PumpUntilEmpty\<close> has no
  such test. Pumping a queue that holds one background task with signal handle 7 and
  one outbound adjacency 8 waits on handle 7 and signals 8, where the worker loop only
  runs the callback.
\<close>

theorem PumpUntilEmpty_background_waits:
  "\<exists>s'. PumpUntilEmpty (pool_with [bg_task] 0 1) = Some s' \<and>
     events s' = [WaitForAdjacentHeadNodes 7, DoTask 1, SignalAdjacentTailNodes [8]] \<and>
     events (worker_task bg_task (pool_with [bg_task] 0 1)) = [DoTask 1]"
  by (simp add: PumpUntilEmpty_drains pool_with_def pump_task_def worker_task_def bg_task_def
      signal_events_def)

text \<open>
  Claim C7. \<open>TryFlush\<close> returns true exactly when the finished counter equals the
  outstanding target at the time of the call. When it returns true both counters are
  reset to zero (and nothing else changes); when it returns false it has pumped the
  queue until empty first, and neither counter was reset: the target is unchanged and
  the finished counter has grown by the number of tasks the pump ran. The hypothesis
  says that the queue counter agrees with the queue, as it does when no other thread
  dequeues in between; under it the call returns.
\<close>

theorem TryFlush_returns:
  assumes "m_numTasksInQueue s = int (length (m_taskQueue s))"
  shows "\<exists>s'. TryFlush s = Some (m_numTasksFinished s = m_numTasksToFinishTarget s, s') \<and>
    (m_numTasksFinished s = m_numTasksToFinishTarget s \<longrightarrow>
       s' = s\<lparr>m_numTasksFinished := 0, m_numTasksToFinishTarget := 0\<rparr>) \<and>
    (m_numTasksFinished s \<noteq> m_numTasksToFinishTarget s \<longrightarrow>
       PumpUntilEmpty s = Some s' \<and> m_taskQueue s' = [] \<and> m_numTasksInQueue s' = 0 \<and>
       m_numTasksToFinishTarget s' = m_numTasksToFinishTarget s \<and>
       m_numTasksFinished s' = m_numTasksFinished s + int (length (m_taskQueue s)))"
proof (cases "m_numTasksFinished s = m_numTasksToFinishTarget s")
  case True
  then show ?thesis by (simp add: TryFlush_def)
next
  case False
  let ?s' = "fold pump_task (m_taskQueue s) (s\<lparr>m_taskQueue := []\<rparr>)"
  have p: "PumpUntilEmpty s = Some ?s'" by (rule PumpUntilEmpty_drains[OF assms])
  have "TryFlush s = Some (False, ?s')" using False p by (simp add: TryFlush_def)
  moreover have "m_taskQueue ?s' = []" "m_numTasksInQueue ?s' = 0"
    "m_numTasksToFinishTarget ?s' = m_numTasksToFinishTarget s"
    "m_numTasksFinished ?s' = m_numTasksFinished s + int (length (m_taskQueue s))"
    using assms by (simp_all add: fold_pump_task_fields)
  ultimately show ?thesis using False p by simp
qed

theorem TryFlush_returns_witness:
  "m_numTasksInQueue (pool_with [normal_task, normal_task] 0 2)
     = int (length (m_taskQueue (pool_with [normal_task, normal_task] 0 2))) \<and>
   (\<exists>s'. TryFlush (pool_with [normal_task, normal_task] 0 2) = Some (False, s') \<and>
         m_numTasksFinished s' = 2 \<and> m_numTasksToFinishTarget s' = 2 \<and> m_taskQueue s' = [])"
proof -
  let ?p = "pool_with [normal_task, normal_task] 0 2"
  have h: "m_numTasksInQueue ?p = int (length (m_taskQueue ?p))"
    by (simp add: pool_with_def)
  show ?thesis using h TryFlush_returns[OF h] by (auto simp: pool_with_def)
qed

section \<open>Properties of resource lookup and declaration\<close>

lemma lower_bound_range:
  "lo \<le> hi \<Longrightarrow> lo \<le> lower_bound data key lo hi \<and> lower_bound data key lo hi \<le> hi"
proof (induction data key lo hi rule: lower_bound.induct)
  case (1 data key lo hi)
  show ?case
  proof (cases "lo < hi")
    case False
    with "1.prems" show ?thesis by (simp add: lower_bound.simps)
  next
    case True
    let ?mid = "(lo + hi) div 2"
    show ?thesis
    proof (cases "ID (data ! ?mid) < key")
      case less: True
      have le: "?mid + 1 \<le> hi" using True by linarith
      have eq: "lower_bound data key lo hi = lower_bound data key (?mid + 1) hi"
        using True less by (subst lower_bound.simps) (simp add: Let_def)
      have "lo \<le> ?mid + 1" using True by linarith
      with "1.IH"(1)[OF True refl less le] eq show ?thesis by linarith
    next
      case nless: False
      have le: "lo \<le> ?mid" using True by linarith
      have eq: "lower_bound data key lo hi = lower_bound data key lo ?mid"
        using True nless by (subst lower_bound.simps) (simp add: Let_def)
      have "?mid \<le> hi" using True by linarith
      with "1.IH"(2)[OF True refl nless le] eq show ?thesis by linarith
    qed
  qed
qed

lemma BinarySearch_found:
  assumes "BinarySearch data key beg end \<noteq> - 1"
  shows "0 \<le> BinarySearch data key beg end \<and> BinarySearch data key beg end \<le> end \<and>
         nat (BinarySearch data key beg end) < length data \<and>
         ID (data ! nat (BinarySearch data key beg end)) = key"
proof -
  from assms have r: "\<not> (beg < 0 \<or> end < beg \<or> int (length data) \<le> end)"
    by (auto simp: BinarySearch_def)
  let ?i = "lower_bound data key (nat beg) (nat end)"
  from r have "nat beg \<le> nat end" by linarith
  then have le: "?i \<le> nat end" using lower_bound_range by blast
  with r have lt: "?i < length data" by linarith
  from assms r have "ID (data ! ?i) = key \<and> BinarySearch data key beg end = int ?i"
    by (auto simp: BinarySearch_def Let_def split: if_splits)
  moreover from le r have "int ?i \<le> end" by linarith
  ultimately show ?thesis using lt by simp
qed

lemma FindFrameResource1_found:
  assumes "FindFrameResource1 g key \<noteq> - 1"
  shows "0 \<le> FindFrameResource1 g key \<and> FindFrameResource1 g key < m_lastResIdx g \<and>
         nat (FindFrameResource1 g key) < length (m_frameResources g) \<and>
         ID (m_frameResources g ! nat (FindFrameResource1 g key)) = key"
  using assms BinarySearch_found[of "m_frameResources g" key 0 "m_lastResIdx g - 1"]
  by (simp add: FindFrameResource1_def FindFrameResource_def)

lemma FindFrameResource1_absent:
  assumes "key \<notin> ID ` set (take (nat (m_lastResIdx g)) (m_frameResources g))"
  shows "FindFrameResource1 g key = - 1"
proof (rule ccontr)
  assume "FindFrameResource1 g key \<noteq> - 1"
  note f = FindFrameResource1_found[OF this]
  let ?i = "nat (FindFrameResource1 g key)"
  let ?t = "take (nat (m_lastResIdx g)) (m_frameResources g)"
  from f have "?i < length ?t" by simp
  moreover from f have "?t ! ?i = m_frameResources g ! ?i" by simp
  ultimately have "m_frameResources g ! ?i \<in> set ?t" by (metis nth_mem)
  with f assms show False by (metis image_eqI)
qed

text \<open>
  Claim C9. \<open>RegisterResource\<close> with an id already present from a previous frame
  overwrites the entry exactly when the native handle differs and is a no-op otherwise;
  an id that is not present is appended.

  When the previous frame left exactly one resource, the lookup
  \<open>FindFrameResource(path, 0, m_prevFramesNumResources - 1)\<close> is called with
  \<open>beg = end = 0\<close> and returns \<open>-1\<close> at once (\<open>end - beg == 0\<close>), without looking at
  entry 0. Registering id 7 again with the same native handle 5 is then not a no-op:
  a second entry with id 7 is written at position 1 and the resource count grows to 2.
\<close>

theorem RegisterResource_single_previous_entry:
  "RegisterResource one_resource_graph 5 7 0x4 False =
   Inr (one_resource_graph\<lparr>m_frameResources := [slot 7 5 0x4 [], slot 7 5 0x4 [], empty_slot],
                            m_lastResIdx := 2\<rparr>)"
  by (simp add: RegisterResource_def one_resource_graph_def FindFrameResource_def
      DUMMY_RES_COUNT_def MAX_NUM_RESOURCES_def ResourceMetadata_Reset_def slot_def
      empty_slot_def Let_def)

text \<open>
  Claim C10. \<open>AddOutput\<close> does not defer the resource existence check: a call that
  names a resource id absent from the resource table (the entries below
  \<open>m_lastResIdx\<close>) ends in a failed assertion, and
  at that point no producer list (indeed no entry of the resource table) has been
  written. \<open>AddInput\<close> with the same unknown id, in the declaration phase, with a valid
  handle and a read state, succeeds and records the input.
\<close>

theorem AddOutput_checks_resource_AddInput_defers:
  assumes "pathID \<notin> ID ` set (take (nat (m_lastResIdx g)) (m_frameResources g))"
  shows "(\<exists>msg g'. AddOutput g h pathID st = Inl (msg, g') \<and>
            m_frameResources g' = m_frameResources g) \<and>
         (m_inBeginEndBlock g \<and> \<not> m_inPreRegister g \<and> handle_ok g h \<and> st' AND READ_STATES \<noteq> 0
            \<longrightarrow> (\<exists>g'. AddInput g h pathID st' = Inr g' \<and>
                   Inputs (m_renderNodes g' ! nat h) =
                     Inputs (m_renderNodes g ! nat h) @ [\<lparr>ResID = pathID, ExpectedState = st'\<rparr>]))"
proof
  have absent: "FindFrameResource1 (g\<lparr>m_renderNodes := ns\<rparr>) pathID = - 1" for ns
    using assms by (intro FindFrameResource1_absent) simp
  show "\<exists>msg g'. AddOutput g h pathID st = Inl (msg, g') \<and> m_frameResources g' = m_frameResources g"
    by (simp add: AddOutput_def Let_def absent)
next
  show "m_inBeginEndBlock g \<and> \<not> m_inPreRegister g \<and> handle_ok g h \<and> st' AND READ_STATES \<noteq> 0
     \<longrightarrow> (\<exists>g'. AddInput g h pathID st' = Inr g' \<and>
            Inputs (m_renderNodes g' ! nat h) =
              Inputs (m_renderNodes g ! nat h) @ [\<lparr>ResID = pathID, ExpectedState = st'\<rparr>])"
    by (auto simp: AddInput_def handle_ok_def MAX_NUM_RENDER_PASSES_def)
qed

theorem AddOutput_checks_resource_AddInput_defers_witness:
  "77 \<notin> ID ` set (take (nat (m_lastResIdx two_pass_graph)) (m_frameResources two_pass_graph)) \<and>
   (\<exists>msg g'. AddOutput two_pass_graph 1 77 0x8 = Inl (msg, g') \<and>
       m_frameResources g' = m_frameResources two_pass_graph) \<and>
   (\<exists>g'. AddInput two_pass_graph 1 77 0x40 = Inr g' \<and>
       Inputs (m_renderNodes g' ! 1) = [\<lparr>ResID = 77, ExpectedState = 0x40\<rparr>])"
proof -
  have a: "77 \<notin> ID ` set (take (nat (m_lastResIdx two_pass_graph)) (m_frameResources two_pass_graph))"
    by (simp add: two_pass_graph_def slot_def empty_slot_def)
  have b: "m_inBeginEndBlock two_pass_graph \<and> \<not> m_inPreRegister two_pass_graph \<and>
           handle_ok two_pass_graph 1 \<and> (0x40 :: 32 word) AND READ_STATES \<noteq> 0"
    by (simp add: two_pass_graph_def handle_ok_def MAX_NUM_RENDER_PASSES_def READ_STATES_def)
  have c: "Inputs (m_renderNodes two_pass_graph ! nat 1) = []"
    by (simp add: two_pass_graph_def fresh_node_def)
  from AddOutput_checks_resource_AddInput_defers[OF a, where h = 1 and st = "0x8" and st' = "0x40"] a b c
  show ?thesis by simp
qed

section \<open>Properties of barrier insertion\<close>

lemmas barrier_defs = InsertResourceBarriers_def barrier_node_def barrier_input_def
  barrier_output_def barrier_producer_def case_b_def getLastSyncedIdx_def
  setLastSyncedIdx_def initial_cursors_def FindFrameResource1_def FindFrameResource_def
  BinarySearch_def producers_of_def DUMMY_RES_COUNT_def MAX_NUM_PRODUCERS_def
  INVALID_COMPUTE_STATES_def D3D12_RESOURCE_STATE_PRESENT_def

lemmas example_defs = slot_def empty_slot_def fresh_node_def dep_def

lemmas build_defs = BuildEdges_def build_node_def build_input_def build_producer_def
  init_indegrees_def init_indegree_def int16_range_def producers_of_def
  FindFrameResource1_def FindFrameResource_def
  BinarySearch_def MAX_NUM_PRODUCERS_def MAX_NUM_RENDER_PASSES_def

lemmas sort_defs = Sort_topological_def frontier_def frontier_batches_def kahn_step_def
  relax_def int16_range_def batch_step_def batch_edge_def fill_mapping_def shuffle_def

text \<open>The stages of \<open>Build\<close> on scenario S2 and on the ping-pong pass, by evaluation.\<close>

lemma S2_stages:
  "BuildEdges S2_declared = Inr (S2_built, S2_adjacency)"
  "Sort_topological 6 S2_adjacency S2_built = Inr ([0, 1, 2, 3, 4, 5], S2_batched)"
  "std_sort_result (\<lambda>h. NodeBatchIdx (S2_batched ! h)) [0, 1, 2, 3, 4, 5] [0, 1, 2, 3, 4, 5]"
  "S2_declared\<lparr>m_renderNodes := S2_built,
                m_mapping := fill_mapping [0, 1, 2, 3, 4, 5] (m_mapping (S2_declared\<lparr>m_renderNodes := S2_built\<rparr>)),
                m_renderNodes := shuffle [0, 1, 2, 3, 4, 5] S2_batched\<rparr> = S2_sorted"
     apply (simp add: build_defs S2_declared_def S2_built_def S2_adjacency_def example_defs
      lower_bound.simps Let_def upt_rec)
    apply (simp add: sort_defs S2_built_def S2_adjacency_def S2_batched_def example_defs Let_def upt_rec)
   apply (simp add: std_sort_result_def S2_batched_def example_defs)
  apply (simp add: S2_sorted_def S2_declared_def S2_batched_def fill_mapping_def shuffle_def upt_rec)
  done

lemma pingpong_stages:
  "BuildEdges pingpong_declared = Inr (pingpong_built, [[]])"
  "Sort_topological 1 [[]] pingpong_built = Inr ([0], m_renderNodes pingpong_sorted)"
  "std_sort_result (\<lambda>h. NodeBatchIdx (m_renderNodes pingpong_sorted ! h)) [0] [0]"
  "pingpong_declared\<lparr>m_renderNodes := pingpong_built,
                m_mapping := fill_mapping [0] (m_mapping (pingpong_declared\<lparr>m_renderNodes := pingpong_built\<rparr>)),
                m_renderNodes := shuffle [0] (m_renderNodes pingpong_sorted)\<rparr> = pingpong_sorted"
     apply (simp add: build_defs pingpong_declared_def pingpong_built_def example_defs
      lower_bound.simps Let_def upt_rec)
    apply (simp add: sort_defs pingpong_built_def pingpong_sorted_def example_defs Let_def upt_rec)
   apply (simp add: std_sort_result_def)
  apply (simp add: pingpong_sorted_def pingpong_declared_def fill_mapping_def shuffle_def upt_rec)
  done

text \<open>
  Claim C1. Cross-queue fences follow the case-b reduction: a node gets
  \<open>GpuDepSourceIdx = L\<close> exactly when \<open>L\<close>, the largest sorted index of an
  opposite-queue producer of its inputs, is greater than the cursor of its queue; in
  scenario S2, X waits on A, Y on B and Z on C.

  Both cursors start at \<open>0\<close>, not at the invalid index \<open>-1\<close>, so a producer at sorted
  index \<open>0\<close> never passes the test \<open>cursor < L\<close>. In S2 the pass A is at sorted index 0:
  X (index 3), which reads what A writes on the other queue, is left with
  \<open>GpuDepSourceIdx = -1\<close> and waits on nothing, while Y and Z get their fences on
  B (1) and C (2).
\<close>

theorem InsertResourceBarriers_S2_no_fence_on_first_node:
  "BuildEdges S2_declared = Inr (S2_built, S2_adjacency) \<and>
   Sort S2_adjacency (S2_declared\<lparr>m_renderNodes := S2_built\<rparr>) S2_sorted \<and>
   (\<exists>g'. InsertResourceBarriers S2_sorted 99 = Inr g' \<and>
      map GpuDepSourceIdx (m_renderNodes g') = [- 1, - 1, - 1, - 1, 1, 2])"
proof -
  have t: "Sort_topological (nat (m_currRenderPassIdx (S2_declared\<lparr>m_renderNodes := S2_built\<rparr>)))
             S2_adjacency (m_renderNodes (S2_declared\<lparr>m_renderNodes := S2_built\<rparr>))
           = Inr ([0, 1, 2, 3, 4, 5], S2_batched)"
    using S2_stages(2) by (simp add: S2_declared_def)
  have s: "Sort S2_adjacency (S2_declared\<lparr>m_renderNodes := S2_built\<rparr>) S2_sorted"
    using SortI[OF t S2_stages(3)] by (simp only: S2_stages(4))
  have b: "\<exists>g'. InsertResourceBarriers S2_sorted 99 = Inr g' \<and>
      map GpuDepSourceIdx (m_renderNodes g') = [- 1, - 1, - 1, - 1, 1, 2]"
    by (simp add: barrier_defs S2_sorted_def S2_declared_def S2_batched_def example_defs
        lower_bound.simps Let_def upt_rec)
  from S2_stages(1) s b show ?thesis by blast
qed

text \<open>
  Claim C2. During barrier insertion an output whose output-mask bit is set (the
  ping-pong case) gets no transition barrier and does not change the recorded state
  of its resource; an output whose bit is clear sets the recorded state to its expected
  state whether or not a barrier was emitted.

  The source skips the barrier for a masked output but still executes
  \<open>m_frameResources[outputFrameResIdx].State = currOutputRes.ExpectedState\<close>, which is
  outside the test of \<open>skipBarrier\<close>. For the ping-pong pass below, \<open>Build\<close> sets bit 0
  of the output mask; barrier insertion transitions the resource from unordered access
  (\<open>0x8\<close>) to the input state (\<open>0x40\<close>), emits nothing for the masked output, and
  leaves the recorded state at the output's expected state \<open>0x8\<close>, not at the input
  state.
\<close>

theorem InsertResourceBarriers_masked_output_updates_state:
  "BuildEdges pingpong_declared = Inr (pingpong_built, [[]]) \<and>
   OutputMask (pingpong_built ! 0) = 1 \<and>
   Sort [[]] (pingpong_declared\<lparr>m_renderNodes := pingpong_built\<rparr>) pingpong_sorted \<and>
   (\<exists>g'. InsertResourceBarriers pingpong_sorted 99 = Inr g' \<and>
      Barriers (m_renderNodes g' ! 0) = [\<lparr>pResource = 1, StateBefore = 0x8, StateAfter = 0x40\<rparr>] \<and>
      State (m_frameResources g' ! 0) = 0x8)"
proof -
  have t: "Sort_topological (nat (m_currRenderPassIdx (pingpong_declared\<lparr>m_renderNodes := pingpong_built\<rparr>)))
             [[]] (m_renderNodes (pingpong_declared\<lparr>m_renderNodes := pingpong_built\<rparr>))
           = Inr ([0], m_renderNodes pingpong_sorted)"
    using pingpong_stages(2) by (simp add: pingpong_declared_def)
  have s: "Sort [[]] (pingpong_declared\<lparr>m_renderNodes := pingpong_built\<rparr>) pingpong_sorted"
    using SortI[OF t pingpong_stages(3)] by (simp only: pingpong_stages(4))
  have m: "OutputMask (pingpong_built ! 0) = 1" by (simp add: pingpong_built_def)
  have b: "\<exists>g'. InsertResourceBarriers pingpong_sorted 99 = Inr g' \<and>
      Barriers (m_renderNodes g' ! 0) = [\<lparr>pResource = 1, StateBefore = 0x8, StateAfter = 0x40\<rparr>] \<and>
      State (m_frameResources g' ! 0) = 0x8"
    by (simp add: barrier_defs pingpong_sorted_def pingpong_declared_def example_defs
        lower_bound.simps Let_def upt_rec)
  from pingpong_stages(1) m s b show ?thesis by blast
qed

section \<open>Properties of the edge construction\<close>

lemma fold_err_append:
  "fold_err f (xs @ ys) s = (case fold_err f xs s of Inl e \<Rightarrow> Inl e | Inr s' \<Rightarrow> fold_err f ys s')"
  by (induction xs arbitrary: s) (auto split: sum.splits)

lemma set_output_mask_first:
  "set_output_mask outs resID i om =
     (case first_output outs resID of None \<Rightarrow> Inr om
      | Some j \<Rightarrow> if i + j < 32 then Inr (om OR push_bit (i + j) 1)
                  else Inl ''OutputMask: shift count out of range'')"
  by (induction outs arbitrary: i) (auto split: option.splits)

lemma set_output_mask_result:
  assumes "set_output_mask outs resID 0 om = Inr m"
  shows "m = mask_with outs resID om" and "first_output outs resID = Some j \<Longrightarrow> j < 32"
  using assms by (auto simp: set_output_mask_first mask_with_def split: option.splits if_splits)

lemma mask_with_idem: "mask_with outs resID (mask_with outs resID om) = mask_with outs resID om"
  by (simp add: mask_with_def or.assoc split: option.splits)

lemma build_producer_self:
  "build_producer c inp (int c) (node, adj) =
     (if \<not> int16_range (Indegree node - 1) then Inl ''Indegree: int16 overflow''
      else if Outputs node = [] then Inl ''invalid graph.''
      else
        (case set_output_mask (Outputs node) (ResID inp) 0 (OutputMask node) of
           Inl e \<Rightarrow> Inl e
         | Inr om \<Rightarrow> Inr (node\<lparr>Indegree := Indegree node - 1, OutputMask := om\<rparr>, adj)))"
  by (simp add: build_producer_def)

lemma build_producer_other:
  "int c \<noteq> ph \<Longrightarrow> build_producer c inp ph (node, adj) =
     (if 0 \<le> ph \<and> nat ph < length adj then Inr (node, adj[nat ph := adj ! nat ph @ [c]])
      else Inl ''adjacentTailNodes: index out of range'')"
  by (simp add: build_producer_def)

lemma build_producers_fold:
  assumes "fold_err (build_producer c inp) ps (node, adj) = Inr (node', adj')"
  shows "node' = node\<lparr>Indegree := Indegree node - int (count_list ps (int c)),
                       OutputMask := (if int c \<in> set ps
                          then mask_with (Outputs node) (ResID inp) (OutputMask node)
                          else OutputMask node)\<rparr> \<and>
         length adj' = length adj \<and>
         (\<forall>p < length adj. adj' ! p = adj ! p @ replicate (edges_added p c ps) c)"
  using assms
proof (induction ps arbitrary: node adj)
  case Nil
  then show ?case by (simp add: edges_added_def)
next
  case (Cons ph ps)
  show ?case
  proof (cases "int c = ph")
    case True
    let ?n1 = "node\<lparr>Indegree := Indegree node - 1,
                  OutputMask := mask_with (Outputs node) (ResID inp) (OutputMask node)\<rparr>"
    from Cons.prems True obtain om where
      m: "set_output_mask (Outputs node) (ResID inp) 0 (OutputMask node) = Inr om" and
      r0: "fold_err (build_producer c inp) ps
             (node\<lparr>Indegree := Indegree node - 1, OutputMask := om\<rparr>, adj) = Inr (node', adj')"
      by (auto simp: build_producer_self split: if_splits sum.splits)
    from r0 set_output_mask_result(1)[OF m]
    have r: "fold_err (build_producer c inp) ps (?n1, adj) = Inr (node', adj')" by simp
    from Cons.IH[OF r] True show ?thesis
      by (auto simp: mask_with_idem edges_added_def)
  next
    case False
    from Cons.prems False have ok: "0 \<le> ph" "nat ph < length adj"
      by (auto simp: build_producer_other split: if_splits)
    let ?a1 = "adj[nat ph := adj ! nat ph @ [c]]"
    from Cons.prems False ok have r: "fold_err (build_producer c inp) ps (node, ?a1) = Inr (node', adj')"
      by (auto simp: build_producer_other split: if_splits)
    have neq: "nat ph \<noteq> c" using False ok by auto
    have "\<forall>p<length adj. ?a1 ! p @ replicate (edges_added p c ps) c
             = adj ! p @ replicate (edges_added p c (ph # ps)) c"
    proof (intro allI impI)
      fix p assume p: "p < length adj"
      show "?a1 ! p @ replicate (edges_added p c ps) c = adj ! p @ replicate (edges_added p c (ph # ps)) c"
      proof (cases "p = nat ph")
        case True
        then have "int p = ph" using ok by simp
        with True neq p show ?thesis
          by (simp add: edges_added_def replicate_app_Cons_same)
      next
        case False
        then have "ph \<noteq> int p" by auto
        with False p show ?thesis by (simp add: edges_added_def)
      qed
    qed
    with Cons.IH[OF r] False show ?thesis by auto
  qed
qed


lemma build_input_result:
  assumes "build_input g c inp (node, adj) = Inr (node', adj')"
  shows "FindFrameResource1 g (ResID inp) \<noteq> - 1 \<and>
         node' = node\<lparr>Indegree := Indegree node + fan_in g inp - int (times_produced_by g (int c) inp),
                       OutputMask := (if int c \<in> set (producers_of (resource_of g inp))
                          then mask_with (Outputs node) (ResID inp) (OutputMask node)
                          else OutputMask node)\<rparr> \<and>
         length adj' = length adj \<and>
         (\<forall>p < length adj. adj' ! p =
             adj ! p @ replicate (edges_added p c (producers_of (resource_of g inp))) c)"
proof -
  let ?r = "resource_of g inp"
  let ?k = "CurrProdIdx ?r"
  let ?n1 = "node\<lparr>Indegree := (if ?k = 0 then Indegree node - 1 else Indegree node + (?k - 1))\<rparr>"
  from assms have found: "FindFrameResource1 g (ResID inp) \<noteq> - 1"
    by (auto simp: build_input_def Let_def split: if_splits)
  with assms have f: "fold_err (build_producer c inp) (producers_of ?r) (?n1, adj) = Inr (node', adj')"
    by (auto simp: build_input_def Let_def resource_of_def split: if_splits)
  have i1: "Indegree ?n1 = Indegree node + fan_in g inp"
    by (simp add: fan_in_def)
  from build_producers_fold[OF f] found i1 show ?thesis
    by (simp add: times_produced_by_def)
qed

lemma build_inputs_fold:
  assumes "fold_err (build_input g c) inps (node, adj) = Inr (node', adj')"
  shows "(\<forall>inp \<in> set inps. FindFrameResource1 g (ResID inp) \<noteq> - 1) \<and>
         node' = node\<lparr>Indegree := Indegree node + (\<Sum>inp\<leftarrow>inps. fan_in g inp)
                                    - (\<Sum>inp\<leftarrow>inps. int (times_produced_by g (int c) inp)),
                       OutputMask := mask_after g c (Outputs node) inps (OutputMask node)\<rparr> \<and>
         length adj' = length adj \<and>
         (\<forall>p < length adj. adj' ! p =
             adj ! p @ replicate (\<Sum>inp\<leftarrow>inps. edges_added p c (producers_of (resource_of g inp))) c)"
  using assms
proof (induction inps arbitrary: node adj)
  case Nil
  then show ?case by (simp add: mask_after_def)
next
  case (Cons inp inps)
  from Cons.prems obtain n1 a1 where
    s1: "build_input g c inp (node, adj) = Inr (n1, a1)" and
    s2: "fold_err (build_input g c) inps (n1, a1) = Inr (node', adj')"
    by (auto split: sum.splits)
  note r1 = build_input_result[OF s1]
  note r2 = Cons.IH[OF s2]
  have o1: "Outputs n1 = Outputs node" using r1 by simp
  have len: "length a1 = length adj" using r1 by simp
  have "node' = node\<lparr>Indegree := Indegree node + (\<Sum>inp\<leftarrow>inp # inps. fan_in g inp)
                                    - (\<Sum>inp\<leftarrow>inp # inps. int (times_produced_by g (int c) inp)),
                       OutputMask := mask_after g c (Outputs node) (inp # inps) (OutputMask node)\<rparr>"
  proof -
    have "node' = n1\<lparr>Indegree := Indegree n1 + (\<Sum>inp\<leftarrow>inps. fan_in g inp)
                                    - (\<Sum>inp\<leftarrow>inps. int (times_produced_by g (int c) inp)),
                       OutputMask := mask_after g c (Outputs n1) inps (OutputMask n1)\<rparr>"
      using r2 by blast
    also have "n1 = node\<lparr>Indegree := Indegree node + fan_in g inp - int (times_produced_by g (int c) inp),
                       OutputMask := (if int c \<in> set (producers_of (resource_of g inp))
                          then mask_with (Outputs node) (ResID inp) (OutputMask node)
                          else OutputMask node)\<rparr>"
      using r1 by blast
    finally show ?thesis by (simp add: mask_after_def algebra_simps)
  qed
  moreover have "\<forall>p < length adj. adj' ! p =
      adj ! p @ replicate (\<Sum>inp\<leftarrow>inp # inps. edges_added p c (producers_of (resource_of g inp))) c"
  proof (intro allI impI)
    fix p assume p: "p < length adj"
    with r1 have "a1 ! p = adj ! p @ replicate (edges_added p c (producers_of (resource_of g inp))) c"
      by blast
    moreover from r2 p len have "adj' ! p =
        a1 ! p @ replicate (\<Sum>inp\<leftarrow>inps. edges_added p c (producers_of (resource_of g inp))) c"
      by simp
    ultimately show "adj' ! p =
      adj ! p @ replicate (\<Sum>inp\<leftarrow>inp # inps. edges_added p c (producers_of (resource_of g inp))) c"
      by (simp add: replicate_add)
  qed
  moreover have "length adj' = length adj" using r1 r2 by simp
  moreover have "\<forall>inp \<in> set (inp # inps). FindFrameResource1 g (ResID inp) \<noteq> - 1"
    using r1 r2 by simp
  ultimately show ?case by blast
qed


lemma build_node_result:
  assumes "build_node g c (ns, adj) = Inr (ns', adj')"
  shows "(\<forall>inp \<in> set (Inputs (ns ! c)). FindFrameResource1 g (ResID inp) \<noteq> - 1) \<and>
         ns' = ns[c := built_node g c (ns ! c)] \<and> length adj' = length adj \<and>
         (\<forall>p < length adj. adj' ! p = adj ! p @ replicate (edge_count g p c (ns ! c)) c)"
proof -
  from assms obtain node' where
    f: "fold_err (build_input g c) (Inputs (ns ! c)) (ns ! c, adj) = Inr (node', adj')" and
    n: "ns' = ns[c := node']"
    by (auto simp: build_node_def split: sum.splits)
  from build_inputs_fold[OF f] n show ?thesis
    by (simp add: built_node_def edge_count_def)
qed

lemma build_nodes_fold:
  assumes "fold_err (build_node g) [0..<k] (ns, adj) = Inr (ns', adj')" and "k \<le> length ns"
  shows "length ns' = length ns \<and>
         (\<forall>i < length ns. ns' ! i = (if i < k then built_node g i (ns ! i) else ns ! i)) \<and>
         (\<forall>c < k. \<forall>inp \<in> set (Inputs (ns ! c)). FindFrameResource1 g (ResID inp) \<noteq> - 1) \<and>
         length adj' = length adj \<and>
         (\<forall>p < length adj. adj' ! p =
            adj ! p @ concat (map (\<lambda>c. replicate (edge_count g p c (ns ! c)) c) [0..<k]))"
  using assms
proof (induction k arbitrary: ns' adj')
  case 0
  then show ?case by simp
next
  case (Suc k)
  from Suc.prems(1) obtain ns1 adj1 where
    s1: "fold_err (build_node g) [0..<k] (ns, adj) = Inr (ns1, adj1)" and
    s2: "build_node g k (ns1, adj1) = Inr (ns', adj')"
    by (auto simp: fold_err_append split: sum.splits)
  from Suc.prems(2) have k: "k \<le> length ns" "k < length ns" by simp_all
  note ih = Suc.IH[OF s1 k(1)]
  note st = build_node_result[OF s2]
  have nk: "ns1 ! k = ns ! k" using ih k(2) by simp
  have l1: "length ns' = length ns" using ih st by simp
  have l2: "length adj' = length adj" using ih st by simp
  have a: "\<forall>i < length ns. ns' ! i = (if i < Suc k then built_node g i (ns ! i) else ns ! i)"
  proof (intro allI impI)
    fix i assume i: "i < length ns"
    show "ns' ! i = (if i < Suc k then built_node g i (ns ! i) else ns ! i)"
    proof (cases "i = k")
      case True
      with st nk ih i show ?thesis by simp
    next
      case False
      with st ih i show ?thesis by (auto simp: nth_list_update)
    qed
  qed
  have b: "\<forall>p < length adj. adj' ! p =
            adj ! p @ concat (map (\<lambda>c. replicate (edge_count g p c (ns ! c)) c) [0..<Suc k])"
  proof (intro allI impI)
    fix p assume p: "p < length adj"
    with ih have "adj1 ! p = adj ! p @ concat (map (\<lambda>c. replicate (edge_count g p c (ns ! c)) c) [0..<k])"
      by blast
    moreover from st p ih have "adj' ! p = adj1 ! p @ replicate (edge_count g p k (ns1 ! k)) k"
      by simp
    ultimately show "adj' ! p =
            adj ! p @ concat (map (\<lambda>c. replicate (edge_count g p c (ns ! c)) c) [0..<Suc k])"
      using nk by simp
  qed
  have c: "\<forall>c < Suc k. \<forall>inp \<in> set (Inputs (ns ! c)). FindFrameResource1 g (ResID inp) \<noteq> - 1"
    using ih st nk by (auto simp: less_Suc_eq)
  from l1 l2 a b c show ?case by blast
qed

lemma init_indegrees_nth:
  assumes "init_indegrees n ns = Inr ns'" and "n \<le> length ns"
  shows "length ns' = length ns \<and>
         (\<forall>i < length ns. ns' ! i =
            (if i < n then (ns ! i)\<lparr>Indegree := int (length (Inputs (ns ! i)))\<rparr> else ns ! i))"
  using assms
proof (induction n arbitrary: ns')
  case 0
  then show ?case by (simp add: init_indegrees_def)
next
  case (Suc n)
  from Suc.prems(1) obtain ns1 where
    s1: "init_indegrees n ns = Inr ns1" and s2: "init_indegree n ns1 = Inr ns'"
    by (auto simp: init_indegrees_def fold_err_append split: sum.splits)
  from Suc.prems(2) have n: "n \<le> length ns" "n < length ns" by simp_all
  note ih = Suc.IH[OF s1 n(1)]
  from ih n(2) have nn: "ns1 ! n = ns ! n" by simp
  from s2 have step: "ns' = ns1[n := (ns1 ! n)\<lparr>Indegree := int (length (Inputs (ns1 ! n)))\<rparr>]"
    by (auto simp: init_indegree_def split: if_splits)
  show ?case using ih n(2) nn by (auto simp: step nth_list_update less_Suc_eq)
qed

lemma BuildEdges_result:
  assumes "BuildEdges g = Inr (nodes, adj)"
  shows "nat (m_currRenderPassIdx g) \<le> length (m_renderNodes g) \<and>
         0 < m_currRenderPassIdx g \<and>
         length nodes = length (m_renderNodes g) \<and>
         length adj = length (m_renderNodes g) \<and>
         (\<forall>c < nat (m_currRenderPassIdx g).
            (\<forall>inp \<in> set (Inputs (m_renderNodes g ! c)). FindFrameResource1 g (ResID inp) \<noteq> - 1) \<and>
            nodes ! c = built_node g c
              ((m_renderNodes g ! c)\<lparr>Indegree := int (length (Inputs (m_renderNodes g ! c)))\<rparr>)) \<and>
         (\<forall>c. nat (m_currRenderPassIdx g) \<le> c \<and> c < length (m_renderNodes g)
            \<longrightarrow> nodes ! c = m_renderNodes g ! c) \<and>
         (\<forall>p < length (m_renderNodes g). adj ! p =
            concat (map (\<lambda>c. replicate (edge_count g p c (m_renderNodes g ! c)) c)
                      [0..<nat (m_currRenderPassIdx g)]))"
proof -
  let ?n = "nat (m_currRenderPassIdx g)"
  let ?ns = "m_renderNodes g"
  from assms have pos: "0 < m_currRenderPassIdx g" and le: "?n \<le> length ?ns"
    by (auto simp: BuildEdges_def MAX_NUM_RENDER_PASSES_def split: if_splits)
  from assms obtain ini where i0: "init_indegrees ?n ?ns = Inr ini" and
    f: "fold_err (build_node g) [0..<?n] (ini, replicate (length ?ns) []) = Inr (nodes, adj)"
    by (auto simp: BuildEdges_def split: if_splits sum.splits)
  note ii = init_indegrees_nth[OF i0 le]
  have le0: "?n \<le> length ini" using ii le by simp
  note r = build_nodes_fold[OF f le0]
  have in0: "c < ?n \<Longrightarrow> ini ! c = (?ns ! c)\<lparr>Indegree := int (length (Inputs (?ns ! c)))\<rparr>" for c
    using ii le by simp
  have ec: "c < ?n \<Longrightarrow> edge_count g p c (ini ! c) = edge_count g p c (?ns ! c)" for c p
    by (simp add: in0 edge_count_def)
  have cc: "concat (map (\<lambda>c. replicate (edge_count g p c (ini ! c)) c) [0..<?n])
          = concat (map (\<lambda>c. replicate (edge_count g p c (?ns ! c)) c) [0..<?n])" for p
    by (rule arg_cong[where f = concat], rule map_cong) (simp_all add: ec)
  have a: "\<forall>p < length ?ns. adj ! p =
            concat (map (\<lambda>c. replicate (edge_count g p c (?ns ! c)) c) [0..<?n])"
    using r cc by simp
  have b: "\<forall>c < ?n. (\<forall>inp \<in> set (Inputs (?ns ! c)). FindFrameResource1 g (ResID inp) \<noteq> - 1) \<and>
            nodes ! c = built_node g c ((?ns ! c)\<lparr>Indegree := int (length (Inputs (?ns ! c)))\<rparr>)"
  proof (intro allI impI)
    fix c assume c: "c < ?n"
    then have cl: "c < length ini" using le0 by simp
    from r c have "\<forall>inp \<in> set (Inputs (ini ! c)). FindFrameResource1 g (ResID inp) \<noteq> - 1"
      by blast
    moreover from r cl c have "nodes ! c = built_node g c (ini ! c)" by simp
    ultimately show "(\<forall>inp \<in> set (Inputs (?ns ! c)). FindFrameResource1 g (ResID inp) \<noteq> - 1) \<and>
            nodes ! c = built_node g c ((?ns ! c)\<lparr>Indegree := int (length (Inputs (?ns ! c)))\<rparr>)"
      using in0[OF c] by simp
  qed
  have c: "\<forall>c. ?n \<le> c \<and> c < length ?ns \<longrightarrow> nodes ! c = ?ns ! c"
    using r ii by simp
  from pos le r ii a b c show ?thesis by simp
qed

lemma count_list_replicate_eq: "count_list (replicate k y) x = (if x = y then k else 0)"
  by (induction k) auto

lemma count_list_concat_replicate:
  "count_list (concat (map (\<lambda>c. replicate (m c) c) [0..<n])) x = (if x < n then m x else 0)"
  by (induction n) (auto simp: count_list_replicate_eq)

lemma set_concat_replicate:
  "set (concat (map (\<lambda>c. replicate (m c) c) [0..<n])) = {c. c < n \<and> 0 < m c}"
  by (induction n) (auto simp: less_Suc_eq)

lemma bit_mask_with:
  "bit (mask_with outs resID om) i \<longleftrightarrow>
     bit om i \<or> (i < 32 \<and> first_output outs resID = Some i)"
  by (auto simp: mask_with_def bit_or_iff bit_exp_iff possible_bit_word split: option.splits)

lemma bit_mask_after:
  "bit (mask_after g c outs inps om) i \<longleftrightarrow>
     bit om i \<or> (i < 32 \<and> (\<exists>inp \<in> set inps. int c \<in> set (producers_of (resource_of g inp)) \<and>
                              first_output outs (ResID inp) = Some i))"
  unfolding mask_after_def
  by (induction inps arbitrary: om) (auto simp: bit_mask_with)

lemma build_producers_mask_range:
  assumes "fold_err (build_producer c inp) ps (node, adj) = Inr (node', adj')"
    and "int c \<in> set ps" and "first_output (Outputs node) (ResID inp) = Some j"
  shows "j < 32"
  using assms
proof (induction ps arbitrary: node adj)
  case Nil
  then show ?case by simp
next
  case (Cons ph ps)
  from Cons.prems(1) obtain n1 a1 where
    s1: "build_producer c inp ph (node, adj) = Inr (n1, a1)" and
    s2: "fold_err (build_producer c inp) ps (n1, a1) = Inr (node', adj')"
    by (auto split: sum.splits)
  show ?case
  proof (cases "int c = ph")
    case True
    with s1 obtain om where
      "set_output_mask (Outputs node) (ResID inp) 0 (OutputMask node) = Inr om"
      by (auto simp: build_producer_self split: if_splits sum.splits)
    from set_output_mask_result(2)[OF this Cons.prems(3)] show ?thesis .
  next
    case False
    with s1 have "n1 = node" by (auto simp: build_producer_other split: if_splits)
    with Cons.IH[OF s2] Cons.prems(2,3) False show ?thesis by auto
  qed
qed

lemma build_input_mask_range:
  assumes "build_input g c inp (node, adj) = Inr (node', adj')"
    and "int c \<in> set (producers_of (resource_of g inp))"
    and "first_output (Outputs node) (ResID inp) = Some j"
  shows "j < 32"
proof -
  let ?r = "resource_of g inp"
  let ?k = "CurrProdIdx ?r"
  let ?n1 = "node\<lparr>Indegree := (if ?k = 0 then Indegree node - 1 else Indegree node + (?k - 1))\<rparr>"
  from assms(1) have f: "fold_err (build_producer c inp) (producers_of ?r) (?n1, adj) = Inr (node', adj')"
    by (auto simp: build_input_def Let_def resource_of_def split: if_splits)
  from build_producers_mask_range[OF f assms(2)] assms(3) show ?thesis by simp
qed

lemma build_inputs_mask_range:
  assumes "fold_err (build_input g c) inps (node, adj) = Inr (node', adj')"
    and "inp \<in> set inps" and "int c \<in> set (producers_of (resource_of g inp))"
    and "first_output (Outputs node) (ResID inp) = Some j"
  shows "j < 32"
  using assms
proof (induction inps arbitrary: node adj)
  case Nil
  then show ?case by simp
next
  case (Cons x inps)
  from Cons.prems(1) obtain n1 a1 where
    s1: "build_input g c x (node, adj) = Inr (n1, a1)" and
    s2: "fold_err (build_input g c) inps (n1, a1) = Inr (node', adj')"
    by (auto split: sum.splits)
  have o1: "Outputs n1 = Outputs node" using build_input_result[OF s1] by simp
  show ?case
  proof (cases "inp = x")
    case True
    with build_input_mask_range[OF s1] Cons.prems(3,4) show ?thesis by blast
  next
    case False
    with Cons.prems(2) have "inp \<in> set inps" by simp
    from Cons.IH[OF s2 this Cons.prems(3)] Cons.prems(4) o1 show ?thesis by simp
  qed
qed

lemma build_nodes_mask_range:
  assumes "fold_err (build_node g) [0..<k] (ns, adj) = Inr (ns', adj')" and "k \<le> length ns"
    and "c < k" and "inp \<in> set (Inputs (ns ! c))"
    and "int c \<in> set (producers_of (resource_of g inp))"
    and "first_output (Outputs (ns ! c)) (ResID inp) = Some j"
  shows "j < 32"
  using assms
proof (induction k arbitrary: ns' adj')
  case 0
  then show ?case by simp
next
  case (Suc k)
  from Suc.prems(1) obtain ns1 adj1 where
    s1: "fold_err (build_node g) [0..<k] (ns, adj) = Inr (ns1, adj1)" and
    s2: "build_node g k (ns1, adj1) = Inr (ns', adj')"
    by (auto simp: fold_err_append split: sum.splits)
  from Suc.prems(2) have k: "k \<le> length ns" "k < length ns" by simp_all
  show ?case
  proof (cases "c = k")
    case True
    have nk: "ns1 ! k = ns ! k" using build_nodes_fold[OF s1 k(1)] k(2) by simp
    from s2 obtain node' where
      f: "fold_err (build_input g k) (Inputs (ns1 ! k)) (ns1 ! k, adj1) = Inr (node', adj')"
      by (auto simp: build_node_def split: sum.splits)
    from build_inputs_mask_range[OF f] Suc.prems(4,5,6) True nk show ?thesis by simp
  next
    case False
    with Suc.prems(3) have "c < k" by simp
    from Suc.IH[OF s1 k(1) this Suc.prems(4,5,6)] show ?thesis .
  qed
qed

lemma BuildEdges_mask_in_range:
  assumes "BuildEdges g = Inr (nodes, adj)" and "c < nat (m_currRenderPassIdx g)"
    and "inp \<in> set (Inputs (m_renderNodes g ! c))"
    and "int c \<in> set (producers_of (resource_of g inp))"
    and "first_output (Outputs (m_renderNodes g ! c)) (ResID inp) = Some j"
  shows "j < 32"
proof -
  let ?n = "nat (m_currRenderPassIdx g)"
  let ?ns = "m_renderNodes g"
  from assms(1) have le: "?n \<le> length ?ns"
    by (auto simp: BuildEdges_def MAX_NUM_RENDER_PASSES_def split: if_splits)
  from assms(1) obtain ini where i0: "init_indegrees ?n ?ns = Inr ini" and
    f: "fold_err (build_node g) [0..<?n] (ini, replicate (length ?ns) []) = Inr (nodes, adj)"
    by (auto simp: BuildEdges_def split: if_splits sum.splits)
  note i = init_indegrees_nth[OF i0 le]
  from i le have le0: "?n \<le> length ini" by simp
  from i assms(2) le have
    ic: "ini ! c = (?ns ! c)\<lparr>Indegree := int (length (Inputs (?ns ! c)))\<rparr>" by simp
  from build_nodes_mask_range[OF f le0 assms(2)] assms(3,4,5) show ?thesis
    by (simp add: ic)
qed

text \<open>
  Claim C6. Edge construction computes in-degrees so: every node \<open>N\<close> starts with
  its number of inputs; each input whose resource has \<open>k\<close> producers adds \<open>-1\<close> when
  \<open>k = 0\<close> and \<open>k - 1\<close> otherwise (\<open>fan_in\<close>); every producer of an input that is
  \<open>N\<close> itself takes one off again, adds no self edge, and sets the output-mask bit of
  the first output of \<open>N\<close> that names the resource; every producer \<open>p\<close> other than
  \<open>N\<close> contributes one entry \<open>N\<close> to the adjacency list of \<open>p\<close>. The statement
  holds for every node \<open>c\<close> of a graph on which the construction ends without a
  failed assertion: then the in-degrees have stayed within \<open>int16\<close> and every output
  whose bit is set has an index below 32, so that \<open>1 << i\<close> is defined.
\<close>

theorem BuildEdges_indegree_mask_edges:
  assumes "BuildEdges g = Inr (nodes, adj)" and "c < nat (m_currRenderPassIdx g)"
  shows "Indegree (nodes ! c) =
           int (length (Inputs (m_renderNodes g ! c)))
           + (\<Sum>inp\<leftarrow>Inputs (m_renderNodes g ! c). fan_in g inp)
           - (\<Sum>inp\<leftarrow>Inputs (m_renderNodes g ! c). int (times_produced_by g (int c) inp)) \<and>
         count_list (adj ! c) c = 0 \<and>
         (\<forall>p. p < length (m_renderNodes g) \<and> p \<noteq> c \<longrightarrow>
            count_list (adj ! p) c =
              (\<Sum>inp\<leftarrow>Inputs (m_renderNodes g ! c). times_produced_by g (int p) inp)) \<and>
         (\<forall>i. bit (OutputMask (nodes ! c)) i \<longleftrightarrow>
            bit (OutputMask (m_renderNodes g ! c)) i \<or>
            (\<exists>inp \<in> set (Inputs (m_renderNodes g ! c)).
               0 < times_produced_by g (int c) inp \<and>
               first_output (Outputs (m_renderNodes g ! c)) (ResID inp) = Some i))"
proof -
  let ?n = "nat (m_currRenderPassIdx g)"
  let ?N = "m_renderNodes g ! c"
  note r = BuildEdges_result[OF assms(1)]
  from r assms(2) have cl: "c < length (m_renderNodes g)" by linarith
  from r assms(2) have nc: "nodes ! c = built_node g c (?N\<lparr>Indegree := int (length (Inputs ?N))\<rparr>)"
    by blast
  have adjp: "adj ! p = concat (map (\<lambda>c. replicate (edge_count g p c (m_renderNodes g ! c)) c) [0..<?n])"
    if "p < length (m_renderNodes g)" for p
    using r that by blast
  have cnt: "count_list (adj ! p) c = edge_count g p c ?N" if "p < length (m_renderNodes g)" for p
    using adjp[OF that] assms(2) by (simp add: count_list_concat_replicate)
  have e_self: "edge_count g c c ?N = 0"
    by (simp add: edge_count_def edges_added_def)
  have e_other: "edge_count g p c ?N = (\<Sum>inp\<leftarrow>Inputs ?N. times_produced_by g (int p) inp)"
    if "p \<noteq> c" for p
    using that by (simp add: edge_count_def edges_added_def times_produced_by_def)
  have 1: "Indegree (nodes ! c) = int (length (Inputs ?N)) + (\<Sum>inp\<leftarrow>Inputs ?N. fan_in g inp)
           - (\<Sum>inp\<leftarrow>Inputs ?N. int (times_produced_by g (int c) inp))"
    by (simp add: nc built_node_def)
  have 2: "count_list (adj ! c) c = 0" using cnt[OF cl] e_self by simp
  have 3: "\<forall>p. p < length (m_renderNodes g) \<and> p \<noteq> c \<longrightarrow>
            count_list (adj ! p) c = (\<Sum>inp\<leftarrow>Inputs ?N. times_produced_by g (int p) inp)"
    using cnt e_other by simp
  have pos: "0 < times_produced_by g (int c) inp \<longleftrightarrow> int c \<in> set (producers_of (resource_of g inp))"
    for inp
    by (simp add: times_produced_by_def count_list_0_iff zero_less_iff_neq_zero)
  have rng: "i < 32" if "inp \<in> set (Inputs ?N)" "0 < times_produced_by g (int c) inp"
    "first_output (Outputs ?N) (ResID inp) = Some i" for inp i
    using BuildEdges_mask_in_range[OF assms(1,2) that(1) _ that(3)] that(2) pos by blast
  have 4: "\<forall>i. bit (OutputMask (nodes ! c)) i \<longleftrightarrow>
            bit (OutputMask ?N) i \<or>
            (\<exists>inp \<in> set (Inputs ?N). 0 < times_produced_by g (int c) inp \<and>
                          first_output (Outputs ?N) (ResID inp) = Some i)"
  proof
    fix i
    have "bit (OutputMask (nodes ! c)) i \<longleftrightarrow>
            bit (OutputMask ?N) i \<or>
            (i < 32 \<and> (\<exists>inp \<in> set (Inputs ?N). 0 < times_produced_by g (int c) inp \<and>
                          first_output (Outputs ?N) (ResID inp) = Some i))"
      by (simp add: nc built_node_def bit_mask_after pos)
    with rng show "bit (OutputMask (nodes ! c)) i \<longleftrightarrow>
            bit (OutputMask ?N) i \<or>
            (\<exists>inp \<in> set (Inputs ?N). 0 < times_produced_by g (int c) inp \<and>
                          first_output (Outputs ?N) (ResID inp) = Some i)"
      by blast
  qed
  from 1 2 3 4 show ?thesis by blast
qed

text \<open>
  On \<open>fan_in_graph\<close>, for pass 2: three inputs; resource 11 has two producers
  (\<open>+1\<close>), resource 12 one (\<open>+0\<close>), resource 13 none (\<open>-1\<close>); pass 2 itself produces
  11 and 12 (\<open>-2\<close>), so the in-degree is 1, for the one edge from pass 1.
\<close>

theorem BuildEdges_indegree_mask_edges_witness:
  "\<exists>nodes adj. BuildEdges fan_in_graph = Inr (nodes, adj) \<and>
      (2::nat) < nat (m_currRenderPassIdx fan_in_graph) \<and>
      length (Inputs (m_renderNodes fan_in_graph ! 2)) = 3 \<and>
      fan_in fan_in_graph \<lparr>ResID = 11, ExpectedState = 0x40\<rparr> = 1 \<and>
      fan_in fan_in_graph \<lparr>ResID = 12, ExpectedState = 0x40\<rparr> = 0 \<and>
      fan_in fan_in_graph \<lparr>ResID = 13, ExpectedState = 0x40\<rparr> = - 1 \<and>
      Indegree (nodes ! 2) = 1 \<and> count_list (adj ! 2) 2 = 0 \<and> count_list (adj ! 1) 2 = 1 \<and>
      bit (OutputMask (nodes ! 2)) 0 \<and> bit (OutputMask (nodes ! 2)) 1 \<and>
      \<not> bit (OutputMask (nodes ! 2)) 2"
proof -
  obtain nodes adj where h1: "BuildEdges fan_in_graph = Inr (nodes, adj)"
    by (simp add: build_defs fan_in_graph_def lower_bound.simps Let_def upt_rec)
  have h2: "(2::nat) < nat (m_currRenderPassIdx fan_in_graph)"
    by (simp add: fan_in_graph_def)
  have tp: "\<And>h. times_produced_by fan_in_graph h \<lparr>ResID = 11, ExpectedState = 0x40\<rparr> = count_list [1, 2] h"
    "\<And>h. times_produced_by fan_in_graph h \<lparr>ResID = 12, ExpectedState = 0x40\<rparr> = count_list [2] h"
    "\<And>h. times_produced_by fan_in_graph h \<lparr>ResID = 13, ExpectedState = 0x40\<rparr> = 0"
    "fan_in fan_in_graph \<lparr>ResID = 11, ExpectedState = 0x40\<rparr> = 1"
    "fan_in fan_in_graph \<lparr>ResID = 12, ExpectedState = 0x40\<rparr> = 0"
    "fan_in fan_in_graph \<lparr>ResID = 13, ExpectedState = 0x40\<rparr> = - 1"
    by (simp_all add: times_produced_by_def fan_in_def resource_of_def producers_of_def
        FindFrameResource1_def FindFrameResource_def BinarySearch_def
        fan_in_graph_def lower_bound.simps Let_def upt_rec)
  have inps: "Inputs (m_renderNodes fan_in_graph ! 2) =
      [\<lparr>ResID = 11, ExpectedState = 0x40\<rparr>, \<lparr>ResID = 12, ExpectedState = 0x40\<rparr>,
       \<lparr>ResID = 13, ExpectedState = 0x40\<rparr>]"
    "Outputs (m_renderNodes fan_in_graph ! 2) =
      [\<lparr>ResID = 11, ExpectedState = 0x8\<rparr>, \<lparr>ResID = 12, ExpectedState = 0x8\<rparr>]"
    "OutputMask (m_renderNodes fan_in_graph ! 2) = 0"
    "length (m_renderNodes fan_in_graph) = 4"
    by (simp_all add: fan_in_graph_def)
  note t = BuildEdges_indegree_mask_edges[OF h1 h2]
  have a: "Indegree (nodes ! 2) = 1"
    using t by (simp add: inps tp)
  have b: "count_list (adj ! 2) 2 = 0" using t by blast
  have c: "count_list (adj ! 1) 2 = 1"
    using t by (simp add: inps tp)
  have d: "bit (OutputMask (nodes ! 2)) 0 \<and> bit (OutputMask (nodes ! 2)) 1 \<and> \<not> bit (OutputMask (nodes ! 2)) 2"
    using t by (simp add: inps tp)
  have l: "length (Inputs (m_renderNodes fan_in_graph ! 2)) = 3" by (simp add: inps)
  from h1 h2 l tp(4,5,6) a b c d show ?thesis by blast
qed

section \<open>Properties of the topological sort\<close>

lemma kahn_inv_relax:
  assumes "kahn_inv n st" and "relax a st = Inr st'" and "a < n"
  shows "kahn_inv n st'"
proof -
  obtain nodes srt where st: "st = (nodes, srt)" by (cases st)
  from assms(1) st have inv: "n \<le> length nodes" "distinct srt" "set srt \<subseteq> {0..<n}"
    "\<forall>v \<in> set srt. Indegree (nodes ! v) \<le> 0"
    by (auto simp: kahn_inv_def list_all_iff)
  let ?d = "Indegree (nodes ! a) - 1"
  let ?nodes' = "nodes[a := (nodes ! a)\<lparr>Indegree := ?d\<rparr>]"
  have al: "a < length nodes" using assms(3) inv(1) by simp
  have deg: "Indegree (?nodes' ! v) = (if v = a then ?d else Indegree (nodes ! v))" for v
    using al by (simp add: nth_list_update)
  show ?thesis
  proof (cases "?d = 0")
    case True
    then have "Indegree (nodes ! a) = 1" by simp
    with inv(4) have "a \<notin> set srt" by fastforce
    moreover from assms(2) True have "st' = (?nodes', srt @ [a])"
      by (auto simp: st relax_def Let_def split: if_splits)
    ultimately show ?thesis using inv assms(3) True deg
      by (auto simp: kahn_inv_def list_all_iff)
  next
    case False
    have "\<forall>v \<in> set srt. Indegree (?nodes' ! v) \<le> 0"
      using inv(4) deg by fastforce
    moreover from assms(2) False have "st' = (?nodes', srt)"
      by (auto simp: st relax_def Let_def split: if_splits)
    ultimately show ?thesis using inv
      by (auto simp: kahn_inv_def list_all_iff)
  qed
qed

lemma kahn_inv_fold_relax:
  assumes "kahn_inv n st" and "fold_err relax as st = Inr st'" and "\<forall>a \<in> set as. a < n"
  shows "kahn_inv n st'"
  using assms
proof (induction as arbitrary: st)
  case Nil
  then show ?case by simp
next
  case (Cons a as)
  from Cons.prems(2) obtain s1 where s1: "relax a st = Inr s1"
    and s2: "fold_err relax as s1 = Inr st'"
    by (auto split: sum.splits)
  from Cons.prems(3) have a: "a < n" and as: "\<forall>a \<in> set as. a < n" by simp_all
  from Cons.IH[OF kahn_inv_relax[OF Cons.prems(1) s1 a] s2 as] show ?case .
qed

lemma kahn_inv_step:
  assumes "kahn_inv n st" and "kahn_step adj i st = Inr st'"
    and "\<forall>p < n. \<forall>a \<in> set (adj ! p). a < n"
  shows "kahn_inv n st'"
proof -
  obtain nodes srt where st: "st = (nodes, srt)" by (cases st)
  from assms(2) st have i: "i < length srt"
    and f: "fold_err relax (adj ! (srt ! i)) (nodes, srt) = Inr st'"
    by (auto simp: kahn_step_def split: if_splits)
  from assms(1) st i have "srt ! i < n"
    by (auto simp: kahn_inv_def dest: nth_mem)
  with assms(3) have "\<forall>a \<in> set (adj ! (srt ! i)). a < n" by blast
  from kahn_inv_fold_relax[OF _ f this] assms(1) st show ?thesis by simp
qed

lemma kahn_inv_fold_step:
  assumes "kahn_inv n st" and "fold_err (kahn_step adj) is st = Inr st'"
    and "\<forall>p < n. \<forall>a \<in> set (adj ! p). a < n"
  shows "kahn_inv n st'"
  using assms
proof (induction "is" arbitrary: st)
  case Nil
  then show ?case by simp
next
  case (Cons i "is")
  from Cons.prems(2) obtain s1 where s1: "kahn_step adj i st = Inr s1"
    and s2: "fold_err (kahn_step adj) is s1 = Inr st'"
    by (auto split: sum.splits)
  from kahn_inv_step[OF Cons.prems(1) s1 Cons.prems(3)] Cons.IH[OF _ s2 Cons.prems(3)]
  show ?case by blast
qed

lemma frontier_batches_nth:
  assumes "n \<le> length ns"
  shows "length (frontier_batches n ns) = length ns \<and>
         (\<forall>i < length ns. Indegree (frontier_batches n ns ! i) = Indegree (ns ! i))"
  using assms
proof (induction n)
  case 0
  then show ?case by (simp add: frontier_batches_def)
next
  case (Suc n)
  let ?f = "frontier_batches n ns"
  have step: "frontier_batches (Suc n) ns =
      (if Indegree (?f ! n) = 0 then ?f[n := (?f ! n)\<lparr>NodeBatchIdx := 0\<rparr>] else ?f)"
    by (simp add: frontier_batches_def)
  from Suc show ?case by (auto simp: step nth_list_update)
qed

lemma Sort_topological_permutation:
  assumes "Sort_topological n adj nodes = Inr (topo, nodes')"
    and "n \<le> length nodes" and "\<forall>p < n. \<forall>a \<in> set (adj ! p). a < n"
  shows "distinct topo \<and> set topo = {0..<n} \<and> length topo = n"
proof -
  let ?s0 = "frontier n nodes"
  let ?n0 = "frontier_batches n nodes"
  from assms(1) obtain nodes1 where
    f: "fold_err (kahn_step adj) [0..<n] (?n0, ?s0) = Inr (nodes1, topo)" and len: "length topo = n"
    by (auto simp: Sort_topological_def Let_def split: if_splits sum.splits)
  note fb = frontier_batches_nth[OF assms(2)]
  have "kahn_inv n (?n0, ?s0)"
    using fb assms(2) by (auto simp: kahn_inv_def frontier_def list_all_iff)
  from kahn_inv_fold_step[OF this f assms(3)] have d: "distinct topo" and sub: "set topo \<subseteq> {0..<n}"
    by (auto simp: kahn_inv_def)
  have "card (set topo) = n" using d len by (simp add: distinct_card)
  with sub have "set topo = {0..<n}" by (intro card_subset_eq) simp_all
  with d len show ?thesis by simp
qed

lemma fill_mapping_nth:
  assumes "distinct srt" and "\<forall>v \<in> set srt. v < length m" and "i < length srt"
  shows "fill_mapping srt m ! (srt ! i) = int i"
proof -
  let ?F = "\<lambda>k. fold (\<lambda>c m. m[srt ! c := int c]) [0..<k] m"
  have "k \<le> length srt \<Longrightarrow> length (?F k) = length m \<and> (\<forall>i < k. ?F k ! (srt ! i) = int i)" for k
  proof (induction k)
    case 0
    then show ?case by simp
  next
    case (Suc k)
    then have k: "k < length srt" by simp
    from Suc have ih: "length (?F k) = length m" "\<forall>i < k. ?F k ! (srt ! i) = int i" by simp_all
    have step: "?F (Suc k) = (?F k)[srt ! k := int k]" by simp
    from k assms(2) have kl: "srt ! k < length (?F k)" using ih(1) by simp
    have "?F (Suc k) ! (srt ! i) = int i" if "i < Suc k" for i
    proof (cases "i = k")
      case True
      with kl show ?thesis unfolding step by simp
    next
      case False
      with that have ik: "i < k" by simp
      with assms(1) k have "srt ! i \<noteq> srt ! k" by (simp add: nth_eq_iff_index_eq)
      with ih(2) ik show ?thesis unfolding step by simp
    qed
    moreover have "length (?F (Suc k)) = length m" unfolding step using ih(1) by simp
    ultimately show ?case by blast
  qed
  from this[of "length srt"] assms(3) show ?thesis by (simp add: fill_mapping_def)
qed

lemma mapping_bijection:
  assumes d: "distinct srt" and s: "set srt = {0..<n}" and l: "length srt = n"
    and m: "n \<le> length m"
  shows "bij_betw (\<lambda>h. fill_mapping srt m ! h) {0..<n} {0..<int n}"
proof -
  let ?f = "\<lambda>h. fill_mapping srt m ! h"
  let ?f' = "\<lambda>j. srt ! nat j"
  have bound: "\<forall>v \<in> set srt. v < length m" using s m by auto
  have at: "?f (srt ! i) = int i" if "i < n" for i
    using fill_mapping_nth[OF d bound] that l by simp
  have idx: "\<exists>i < n. a = srt ! i" if "a \<in> {0..<n}" for a
    using that s l by (metis in_set_conv_nth)
  show ?thesis
  proof (rule bij_betw_byWitness[where f' = ?f'])
    show "\<forall>a \<in> {0..<n}. ?f' (?f a) = a"
    proof
      fix a assume "a \<in> {0..<n}"
      from idx[OF this] obtain i where "i < n" "a = srt ! i" by blast
      then show "?f' (?f a) = a" by (simp add: at)
    qed
    show "\<forall>a' \<in> {0..<int n}. ?f (?f' a') = a'"
    proof
      fix a' :: int assume "a' \<in> {0..<int n}"
      then have "nat a' < n" "int (nat a') = a'" by auto
      then show "?f (?f' a') = a'" using at by metis
    qed
    show "?f ` {0..<n} \<subseteq> {0..<int n}"
    proof
      fix y assume "y \<in> ?f ` {0..<n}"
      then obtain a where a: "a \<in> {0..<n}" "y = ?f a" by blast
      from idx[OF a(1)] obtain i where "i < n" "a = srt ! i" by blast
      with a(2) show "y \<in> {0..<int n}" by (simp add: at)
    qed
    show "?f' ` {0..<int n} \<subseteq> {0..<n}"
    proof
      fix y assume "y \<in> ?f' ` {0..<int n}"
      then obtain a' where "a' \<in> {0..<int n}" "y = srt ! nat a'" by blast
      then have "nat a' < length srt" using l by auto
      then have "srt ! nat a' \<in> set srt" by (rule nth_mem)
      with s \<open>y = srt ! nat a'\<close> show "y \<in> {0..<n}" by simp
    qed
  qed
qed

lemma BuildEdges_adjacency_in_range:
  assumes "BuildEdges g = Inr (nodes, adj)" and "p < nat (m_currRenderPassIdx g)"
    and "a \<in> set (adj ! p)"
  shows "a < nat (m_currRenderPassIdx g)"
proof -
  note r = BuildEdges_result[OF assms(1)]
  from r assms(2) have "p < length (m_renderNodes g)" by linarith
  with r have "adj ! p = concat (map (\<lambda>c. replicate (edge_count g p c (m_renderNodes g ! c)) c)
                      [0..<nat (m_currRenderPassIdx g)])" by blast
  with assms(3) show ?thesis by (simp add: set_concat_replicate)
qed

lemma Sort_mapping_bij_betw:
  assumes "BuildEdges g = Inr (nodes, adj)"
    and "Sort adj (g\<lparr>m_renderNodes := nodes\<rparr>) g'"
    and "length (m_mapping g) = length (m_renderNodes g)"
  shows "bij_betw (\<lambda>h. m_mapping g' ! h)
           {0..<nat (m_currRenderPassIdx g)} {0..<m_currRenderPassIdx g}"
proof -
  let ?n = "nat (m_currRenderPassIdx g)"
  note r = BuildEdges_result[OF assms(1)]
  from assms(2) obtain topo nodes2 srt where
    t: "Sort_topological ?n adj nodes = Inr (topo, nodes2)" and
    ss: "std_sort_result (\<lambda>h. NodeBatchIdx (nodes2 ! h)) topo srt" and
    g': "m_mapping g' = fill_mapping srt (m_mapping g)"
    by (cases rule: Sort.cases) auto
  have le: "?n \<le> length nodes" using r by simp
  have adj: "\<forall>p < ?n. \<forall>a \<in> set (adj ! p). a < ?n"
    using BuildEdges_adjacency_in_range[OF assms(1)] by blast
  from Sort_topological_permutation[OF t le adj]
  have topo: "distinct topo" "set topo = {0..<?n}" "length topo = ?n" by simp_all
  from ss have ms: "mset srt = mset topo" by (simp add: std_sort_result_def)
  have d: "distinct srt" using ms topo(1) by (metis mset_eq_imp_distinct_iff)
  have s: "set srt = {0..<?n}" using ms topo(2) by (metis mset_eq_setD)
  have l: "length srt = ?n" using ms topo(3) by (metis mset_eq_length)
  have m: "?n \<le> length (m_mapping g)" using r assms(3) by simp
  have "int ?n = m_currRenderPassIdx g" using r by simp
  with mapping_bijection[OF d s l m] show ?thesis by (simp add: g')
qed

lemma fan_in_graph_built:
  "BuildEdges fan_in_graph = Inr (fan_in_built, fan_in_adjacency)"
  by (simp add: build_defs fan_in_graph_def fan_in_built_def fan_in_adjacency_def
      lower_bound.simps Let_def upt_rec)

lemma fan_in_graph_topological:
  "\<exists>x0 x1 x2 x3. Sort_topological 3 fan_in_adjacency fan_in_built = Inr ([0, 1, 2], [x0, x1, x2, x3]) \<and>
      NodeBatchIdx x0 = 0 \<and> NodeBatchIdx x1 = 1 \<and> NodeBatchIdx x2 = 2"
  by (simp add: sort_defs fan_in_graph_def fan_in_built_def fan_in_adjacency_def
      Let_def upt_rec)

lemma shuffle_nth: "i < length srt \<Longrightarrow> shuffle srt nodes ! i = nodes ! (srt ! i)"
  by (simp add: shuffle_def nth_append)

text \<open>
  \<open>std::sort\<close> of libstdc++ by evaluation: on seventeen elements with equivalent keys
  the partition step of the introsort swaps elements, and the final insertion sort
  moves none back; on two elements it is an insertion sort and keeps the order.
\<close>

lemmas std_sort_defs = std_sort_def introsort_loop.simps lg.simps unguarded_partition_pivot_def
  move_median_to_first_def iter_swap_def unguarded_partition.simps partition_up.simps
  partition_down.simps final_insertion_sort_def insertion_sort_def insertion_step_def
  unguarded_linear_insert_def unguarded_linear_insert_loop.simps unguarded_insertion_sort_def
  move_backward_def

lemma replicate_17:
  "replicate 17 x = [x, x, x, x, x, x, x, x, x, x, x, x, x, x, x, x, x]"
  by (simp add: numeral_eq_Suc)

lemma std_sort_equal_keys:
  assumes "\<And>a b. a < 17 \<Longrightarrow> b < 17 \<Longrightarrow> \<not> cmp a b"
  shows "std_sort cmp [0, 1, 2, 3, 4, 5, 6, 7, 8, 9, 10, 11, 12, 13, 14, 15, 16 :: nat]
           = Inr [8, 16, 15, 14, 13, 12, 11, 10, 9, 0, 7, 6, 5, 4, 3, 2, 1]"
  by (simp add: std_sort_defs assms Let_def upt_rec)

lemma seventeen_built:
  "BuildEdges seventeen_independent = Inr (m_renderNodes seventeen_independent, replicate 17 [])"
  by (simp add: build_defs seventeen_independent_def fresh_node_def replicate_17 Let_def upt_rec)

lemma seventeen_topological:
  "Sort_topological 17 (replicate 17 []) (m_renderNodes seventeen_independent)
     = Inr ([0, 1, 2, 3, 4, 5, 6, 7, 8, 9, 10, 11, 12, 13, 14, 15, 16],
            replicate 17 ((fresh_node RENDER)\<lparr>NodeBatchIdx := 0\<rparr>))"
  by (simp add: sort_defs seventeen_independent_def fresh_node_def replicate_17 Let_def upt_rec)


lemma Sort_libstdcxx_admitted:
  assumes "Sort_libstdcxx adj g = Inr g'"
    and "Sort_topological (nat (m_currRenderPassIdx g)) adj (m_renderNodes g) = Inr (topo, nodes)"
    and "std_sort (\<lambda>lhs rhs. NodeBatchIdx (nodes ! lhs) < NodeBatchIdx (nodes ! rhs)) topo = Inr srt"
    and "std_sort_result (\<lambda>h. NodeBatchIdx (nodes ! h)) topo srt"
  shows "Sort adj g g'"
proof -
  from assms(1,2,3) have "g' = g\<lparr>m_mapping := fill_mapping srt (m_mapping g),
                                   m_renderNodes := shuffle srt nodes\<rparr>"
    by (simp add: Sort_libstdcxx_def)
  with SortI[OF assms(2,4)] show ?thesis by simp
qed

lemma Sort_libstdcxx_two_independent:
  "Sort_libstdcxx [[], []] two_independent =
     Inr (two_independent\<lparr>m_mapping := [0, 1],
            m_renderNodes := [(fresh_node RENDER)\<lparr>NodeBatchIdx := 0\<rparr>,
                              (fresh_node COMPUTE)\<lparr>NodeBatchIdx := 0\<rparr>]\<rparr>)"
  by (simp add: Sort_libstdcxx_def sort_defs std_sort_defs two_independent_def fresh_node_def
      Let_def upt_rec)

text \<open>
  Claim C4. The second sort of the topologically sorted array, by batch index, is
  stable: two nodes with equal batch index keep the relative order of the topological
  sort.

  The source calls \<open>std::sort\<close>, not \<open>std::stable_sort\<close>, and nothing else in
  \<open>Sort\<close> restores the order within a batch; no order within a batch is needed
  either, since every edge leads to a higher batch. What holds for every result the
  call may return is the order between batches: a node with a smaller batch index is
  placed before a node with a larger one (the statement is in terms of the graph after
  \<open>Sort\<close>: the position of handle \<open>h\<close> is \<open>m_mapping[h]\<close>, and its batch index is
  that of the node at this position).
\<close>

theorem Sort_orders_by_batch:
  assumes "BuildEdges g = Inr (nodes, adj)"
    and "Sort adj (g\<lparr>m_renderNodes := nodes\<rparr>) g'"
    and "length (m_mapping g) = length (m_renderNodes g)"
    and "a < nat (m_currRenderPassIdx g)" and "b < nat (m_currRenderPassIdx g)"
    and "NodeBatchIdx (m_renderNodes g' ! nat (m_mapping g' ! a))
           < NodeBatchIdx (m_renderNodes g' ! nat (m_mapping g' ! b))"
  shows "m_mapping g' ! a < m_mapping g' ! b"
proof -
  let ?n = "nat (m_currRenderPassIdx g)"
  note r = BuildEdges_result[OF assms(1)]
  from assms(2) obtain topo nodes2 srt where
    t: "Sort_topological ?n adj nodes = Inr (topo, nodes2)" and
    ss: "std_sort_result (\<lambda>h. NodeBatchIdx (nodes2 ! h)) topo srt" and
    gm: "m_mapping g' = fill_mapping srt (m_mapping g)" and
    gn: "m_renderNodes g' = shuffle srt nodes2"
    by (cases rule: Sort.cases) auto
  have le: "?n \<le> length nodes" using r by simp
  have adj: "\<forall>p < ?n. \<forall>a \<in> set (adj ! p). a < ?n"
    using BuildEdges_adjacency_in_range[OF assms(1)] by blast
  from Sort_topological_permutation[OF t le adj]
  have topo: "distinct topo" "set topo = {0..<?n}" "length topo = ?n" by simp_all
  from ss have ms: "mset srt = mset topo" and so: "sorted (map (\<lambda>h. NodeBatchIdx (nodes2 ! h)) srt)"
    by (simp_all add: std_sort_result_def)
  have d: "distinct srt" using ms topo(1) by (metis mset_eq_imp_distinct_iff)
  have s: "set srt = {0..<?n}" using ms topo(2) by (metis mset_eq_setD)
  have l: "length srt = ?n" using ms topo(3) by (metis mset_eq_length)
  have bound: "\<forall>v \<in> set srt. v < length (m_mapping g)" using s r assms(3) by auto
  from assms(4) s l obtain i where i: "i < ?n" "a = srt ! i" by (metis atLeastLessThan_iff in_set_conv_nth zero_le)
  from assms(5) s l obtain j where j: "j < ?n" "b = srt ! j" by (metis atLeastLessThan_iff in_set_conv_nth zero_le)
  have ma: "m_mapping g' ! a = int i" using fill_mapping_nth[OF d bound] i l by (simp add: gm)
  have mb: "m_mapping g' ! b = int j" using fill_mapping_nth[OF d bound] j l by (simp add: gm)
  have ka: "NodeBatchIdx (m_renderNodes g' ! nat (m_mapping g' ! a)) = NodeBatchIdx (nodes2 ! (srt ! i))"
    unfolding ma gn using i(1) l by (simp add: shuffle_nth i(2))
  have kb: "NodeBatchIdx (m_renderNodes g' ! nat (m_mapping g' ! b)) = NodeBatchIdx (nodes2 ! (srt ! j))"
    unfolding mb gn using j(1) l by (simp add: shuffle_nth j(2))
  have "i < j"
  proof (rule ccontr)
    assume "\<not> i < j"
    then have "j \<le> i" by simp
    with so i l have "map (\<lambda>h. NodeBatchIdx (nodes2 ! h)) srt ! j \<le> map (\<lambda>h. NodeBatchIdx (nodes2 ! h)) srt ! i"
      by (simp add: sorted_iff_nth_mono del: nth_map)
    with i j l have "NodeBatchIdx (nodes2 ! (srt ! j)) \<le> NodeBatchIdx (nodes2 ! (srt ! i))" by simp
    with assms(6) ka kb show False by simp
  qed
  then show ?thesis by (simp add: ma mb)
qed

text \<open>
  The claim as stated fails for seventeen independent passes when the library is
  libstdc++: all passes are in batch 0 and the topological order is 0, 1, ..., 16;
  \<open>std::sort\<close> partitions the range once, around the median of the elements at
  positions 1, 8 and 16, and returns the handles as 8, 16, 15, ..., 9, 0, 7, 6, ..., 1.
  Pass 1 is before pass 2 in the topological order and behind it afterwards (at
  positions 16 and 15). This run is among those the relation \<open>Sort\<close> admits.
\<close>

theorem Sort_not_stable_counterexample:
  "BuildEdges seventeen_independent
     = Inr (m_renderNodes seventeen_independent, replicate 17 []) \<and>
   Sort_topological 17 (replicate 17 []) (m_renderNodes seventeen_independent)
     = Inr ([0, 1, 2, 3, 4, 5, 6, 7, 8, 9, 10, 11, 12, 13, 14, 15, 16],
            replicate 17 ((fresh_node RENDER)\<lparr>NodeBatchIdx := 0\<rparr>)) \<and>
   std_sort (\<lambda>lhs rhs. NodeBatchIdx (replicate 17 ((fresh_node RENDER)\<lparr>NodeBatchIdx := 0\<rparr>) ! lhs)
                      < NodeBatchIdx (replicate 17 ((fresh_node RENDER)\<lparr>NodeBatchIdx := 0\<rparr>) ! rhs))
       [0, 1, 2, 3, 4, 5, 6, 7, 8, 9, 10, 11, 12, 13, 14, 15, 16]
     = Inr [8, 16, 15, 14, 13, 12, 11, 10, 9, 0, 7, 6, 5, 4, 3, 2, 1] \<and>
   Sort_libstdcxx (replicate 17 []) seventeen_independent = Inr seventeen_sorted \<and>
   Sort (replicate 17 []) seventeen_independent seventeen_sorted \<and>
   NodeBatchIdx (m_renderNodes seventeen_sorted ! nat (m_mapping seventeen_sorted ! 1))
     = NodeBatchIdx (m_renderNodes seventeen_sorted ! nat (m_mapping seventeen_sorted ! 2)) \<and>
   m_mapping seventeen_sorted ! 1 = 16 \<and> m_mapping seventeen_sorted ! 2 = 15"
proof -
  let ?topo = "[0, 1, 2, 3, 4, 5, 6, 7, 8, 9, 10, 11, 12, 13, 14, 15, 16 :: nat]"
  let ?srt = "[8, 16, 15, 14, 13, 12, 11, 10, 9, 0, 7, 6, 5, 4, 3, 2, 1 :: nat]"
  let ?b = "replicate 17 ((fresh_node RENDER)\<lparr>NodeBatchIdx := 0\<rparr>)"
  let ?cmp = "\<lambda>lhs rhs. NodeBatchIdx (?b ! lhs) < NodeBatchIdx (?b ! rhs)"
  note h1 = seventeen_built
  note t = seventeen_topological
  have s: "std_sort ?cmp ?topo = Inr ?srt"
    by (rule std_sort_equal_keys) simp
  have t': "Sort_topological (nat (m_currRenderPassIdx seventeen_independent)) (replicate 17 [])
              (m_renderNodes seventeen_independent) = Inr (?topo, ?b)"
    using t by (simp add: seventeen_independent_def)
  have fm: "fill_mapping ?srt (m_mapping seventeen_independent)
              = [9, 16, 15, 14, 13, 12, 11, 10, 0, 8, 7, 6, 5, 4, 3, 2, 1]"
    by (simp add: fill_mapping_def seventeen_independent_def replicate_17 upt_rec)
  have sh: "shuffle ?srt ?b = ?b"
    by (simp add: shuffle_def replicate_17 upt_rec)
  have l: "Sort_libstdcxx (replicate 17 []) seventeen_independent = Inr seventeen_sorted"
    unfolding Sort_libstdcxx_def t' by (simp only: s fm sh sum.case prod.case seventeen_sorted_def)
  have ss: "std_sort_result (\<lambda>h. NodeBatchIdx (?b ! h)) ?topo ?srt"
    by (simp add: std_sort_result_def replicate_17)
  note r = Sort_libstdcxx_admitted[OF l t' s ss]
  have m: "NodeBatchIdx (m_renderNodes seventeen_sorted ! nat (m_mapping seventeen_sorted ! 1))
     = NodeBatchIdx (m_renderNodes seventeen_sorted ! nat (m_mapping seventeen_sorted ! 2))"
    "m_mapping seventeen_sorted ! 1 = 16" "m_mapping seventeen_sorted ! 2 = 15"
    by (simp_all add: seventeen_sorted_def)
  from h1 t s l r m show ?thesis by blast
qed

theorem Sort_orders_by_batch_witness:
  "\<exists>g'. BuildEdges fan_in_graph = Inr (fan_in_built, fan_in_adjacency) \<and>
     Sort fan_in_adjacency (fan_in_graph\<lparr>m_renderNodes := fan_in_built\<rparr>) g' \<and>
     length (m_mapping fan_in_graph) = length (m_renderNodes fan_in_graph) \<and>
     (0::nat) < nat (m_currRenderPassIdx fan_in_graph) \<and>
     (1::nat) < nat (m_currRenderPassIdx fan_in_graph) \<and>
     NodeBatchIdx (m_renderNodes g' ! nat (m_mapping g' ! 0))
       < NodeBatchIdx (m_renderNodes g' ! nat (m_mapping g' ! 1)) \<and>
     m_mapping g' ! 0 < m_mapping g' ! 1"
proof -
  from fan_in_graph_topological obtain x0 x1 x2 x3 where
    t: "Sort_topological 3 fan_in_adjacency fan_in_built = Inr ([0, 1, 2], [x0, x1, x2, x3])" and
    b: "NodeBatchIdx x0 = 0" "NodeBatchIdx x1 = 1" "NodeBatchIdx x2 = 2" by auto
  let ?g = "fan_in_graph\<lparr>m_renderNodes := fan_in_built\<rparr>"
  let ?g' = "?g\<lparr>m_mapping := fill_mapping [0, 1, 2] (m_mapping ?g),
                 m_renderNodes := shuffle [0, 1, 2] [x0, x1, x2, x3]\<rparr>"
  have t': "Sort_topological (nat (m_currRenderPassIdx ?g)) fan_in_adjacency (m_renderNodes ?g)
              = Inr ([0, 1, 2], [x0, x1, x2, x3])"
    using t by (simp add: fan_in_graph_def)
  have ss: "std_sort_result (\<lambda>h. NodeBatchIdx ([x0, x1, x2, x3] ! h)) [0, 1, 2] [0, 1, 2]"
    by (simp add: std_sort_result_def b)
  note h2 = SortI[OF t' ss]
  have h3: "length (m_mapping fan_in_graph) = length (m_renderNodes fan_in_graph)"
    by (simp add: fan_in_graph_def)
  have h4: "(0::nat) < nat (m_currRenderPassIdx fan_in_graph)"
    and h5: "(1::nat) < nat (m_currRenderPassIdx fan_in_graph)"
    by (simp_all add: fan_in_graph_def)
  have h6: "NodeBatchIdx (m_renderNodes ?g' ! nat (m_mapping ?g' ! 0))
              < NodeBatchIdx (m_renderNodes ?g' ! nat (m_mapping ?g' ! 1))"
    by (simp add: fill_mapping_def shuffle_def fan_in_graph_def b upt_rec)
  note c = Sort_orders_by_batch[OF fan_in_graph_built h2 h3 h4 h5 h6]
  from fan_in_graph_built h2 h3 h4 h5 h6 c show ?thesis by blast
qed

section \<open>The topological sort succeeds on acyclic graphs\<close>

lemma relax_counts:
  assumes inv: "kahn_count_inv n adj P (a # rest) st" and a: "a < n"
  shows "\<exists>nodes' srt' ys. relax a st = Inr (nodes', srt') \<and> srt' = snd st @ ys \<and>
           kahn_count_inv n adj P rest (nodes', srt')"
proof -
  obtain nodes srt where st: "st = (nodes, srt)" by (cases st)
  from inv[unfolded st kahn_count_inv_def prod.case]
  have i: "n \<le> length nodes" "distinct srt" "set srt \<subseteq> {0..<n}"
    "\<forall>v < n. Indegree (nodes ! v) = int (count_list (a # rest) v + unprocessed_in n adj P v)"
    "\<forall>v < n. v \<in> set srt \<longleftrightarrow> Indegree (nodes ! v) = 0"
    "\<forall>v < n. Indegree (nodes ! v) \<le> 32767"
    by blast+
  let ?d = "Indegree (nodes ! a) - 1"
  let ?nodes' = "nodes[a := (nodes ! a)\<lparr>Indegree := ?d\<rparr>]"
  have al: "a < length nodes" using a i(1) by simp
  have deg: "Indegree (?nodes' ! v) = (if v = a then ?d else Indegree (nodes ! v))" for v
    using al by (simp add: nth_list_update)
  from i(4) a have da: "Indegree (nodes ! a) = int (Suc (count_list rest a) + unprocessed_in n adj P a)"
    by simp
  then have dpos: "0 \<le> ?d" and dval: "?d = int (count_list rest a + unprocessed_in n adj P a)" by simp_all
  from i(6) a have "?d \<le> 32767" by fastforce
  with dpos have rng: "int16_range ?d" by (simp add: int16_range_def)
  from da have "Indegree (nodes ! a) \<noteq> 0" by simp
  with i(5) a have notin: "a \<notin> set srt" by blast
  have cnt: "\<forall>v < n. Indegree (?nodes' ! v) = int (count_list rest v + unprocessed_in n adj P v)"
  proof (intro allI impI)
    fix v assume v: "v < n"
    show "Indegree (?nodes' ! v) = int (count_list rest v + unprocessed_in n adj P v)"
    proof (cases "v = a")
      case True
      have "Indegree (?nodes' ! a) = ?d" using al by simp
      with True dval show ?thesis by simp
    next
      case False
      then have "Indegree (?nodes' ! v) = Indegree (nodes ! v)" by simp
      moreover from i(4) v False have "Indegree (nodes ! v) = int (count_list rest v + unprocessed_in n adj P v)"
        by simp
      ultimately show ?thesis by simp
    qed
  qed
  have le: "\<forall>v < n. Indegree (?nodes' ! v) \<le> 32767"
  proof (intro allI impI)
    fix v assume v: "v < n"
    show "Indegree (?nodes' ! v) \<le> 32767"
    proof (cases "v = a")
      case True
      with \<open>?d \<le> 32767\<close> al show ?thesis by simp
    next
      case False
      with i(6) v show ?thesis by simp
    qed
  qed
  have len: "n \<le> length ?nodes'" using i(1) by simp
  have dega: "Indegree (?nodes' ! a) = ?d" using al by simp
  have dego: "v \<noteq> a \<Longrightarrow> Indegree (?nodes' ! v) = Indegree (nodes ! v)" for v by simp
  show ?thesis
  proof (cases "?d = 0")
    case True
    then have r: "relax a st = Inr (?nodes', srt @ [a])"
      using rng by (simp add: st relax_def Let_def)
    have d: "distinct (srt @ [a])" using i(2) notin by simp
    have sub: "set (srt @ [a]) \<subseteq> {0..<n}" using i(3) a by simp
    have mem: "\<forall>v < n. v \<in> set (srt @ [a]) \<longleftrightarrow> Indegree (?nodes' ! v) = 0"
    proof (intro allI impI)
      fix v assume v: "v < n"
      show "v \<in> set (srt @ [a]) \<longleftrightarrow> Indegree (?nodes' ! v) = 0"
      proof (cases "v = a")
        case True
        with dega \<open>?d = 0\<close> show ?thesis by simp
      next
        case False
        with dego[OF False] i(5) v show ?thesis by simp
      qed
    qed
    have "kahn_count_inv n adj P rest (?nodes', srt @ [a])"
      unfolding kahn_count_inv_def prod.case using len d sub cnt mem le by blast
    with r st show ?thesis by auto
  next
    case False
    then have r: "relax a st = Inr (?nodes', srt)"
      using rng by (simp add: st relax_def Let_def)
    have mem: "\<forall>v < n. v \<in> set srt \<longleftrightarrow> Indegree (?nodes' ! v) = 0"
    proof (intro allI impI)
      fix v assume v: "v < n"
      show "v \<in> set srt \<longleftrightarrow> Indegree (?nodes' ! v) = 0"
      proof (cases "v = a")
        case True
        with dega False notin show ?thesis by simp
      next
        case neq: False
        with dego[OF neq] i(5) v show ?thesis by simp
      qed
    qed
    have "kahn_count_inv n adj P rest (?nodes', srt)"
      unfolding kahn_count_inv_def prod.case using len i(2,3) cnt mem le by blast
    with r st show ?thesis by auto
  qed
qed

lemma fold_relax_counts:
  assumes "kahn_count_inv n adj P as st" and "\<forall>a \<in> set as. a < n"
  shows "\<exists>nodes' srt' ys. fold_err relax as st = Inr (nodes', srt') \<and> srt' = snd st @ ys \<and>
           kahn_count_inv n adj P [] (nodes', srt')"
  using assms
proof (induction as arbitrary: st)
  case Nil
  then show ?case by (cases st) auto
next
  case (Cons a as)
  from Cons.prems(2) have a: "a < n" and as: "\<forall>a \<in> set as. a < n" by simp_all
  from relax_counts[OF Cons.prems(1) a] obtain n1 s1 ys1 where
    r: "relax a st = Inr (n1, s1)" and p: "s1 = snd st @ ys1" and
    inv: "kahn_count_inv n adj P as (n1, s1)" by blast
  from Cons.IH[OF inv as] obtain n2 s2 ys2 where
    f: "fold_err relax as (n1, s1) = Inr (n2, s2)" and p2: "s2 = s1 @ ys2" and
    inv2: "kahn_count_inv n adj P [] (n2, s2)" by auto
  from r f p p2 inv2 show ?case by auto
qed


lemma finite_edges_of: "finite (edges_of n adj)"
proof -
  have "edges_of n adj \<subseteq> {0..<n} \<times> (\<Union>u \<in> {0..<n}. set (adj ! u))"
    by (auto simp: edges_of_def)
  then show ?thesis by (rule finite_subset) simp
qed

lemma kahn_progress:
  assumes inv: "kahn_count_inv n adj (set (take i srt)) [] (nodes, srt)"
    and i: "i < n" and acyc: "acyclic (edges_of n adj)"
  shows "i < length srt"
proof (rule ccontr)
  assume "\<not> i < length srt"
  then have all: "take i srt = srt" by simp
  from inv[unfolded kahn_count_inv_def prod.case all]
  have d: "distinct srt" and sub: "set srt \<subseteq> {0..<n}"
    and cnt: "\<forall>v < n. Indegree (nodes ! v) = int (count_list [] v + unprocessed_in n adj (set srt) v)"
    and mem: "\<forall>v < n. v \<in> set srt \<longleftrightarrow> Indegree (nodes ! v) = 0"
    by blast+
  let ?U = "{0..<n} - set srt"
  have "card (set srt) = length srt" using d by (simp add: distinct_card)
  with \<open>\<not> i < length srt\<close> i have "card (set srt) < card {0..<n}" by simp
  with sub have "set srt \<noteq> {0..<n}" by auto
  with sub have ne: "\<exists>x. x \<in> ?U" by auto
  have pred: "\<exists>u \<in> ?U. (u, v) \<in> edges_of n adj" if v: "v \<in> ?U" for v
  proof -
    from v have vn: "v < n" and "v \<notin> set srt" by auto
    with mem have "Indegree (nodes ! v) \<noteq> 0" by blast
    with cnt vn have "unprocessed_in n adj (set srt) v \<noteq> 0" by simp
    then have "(\<Sum>u \<in> ?U. count_list (adj ! u) v) \<noteq> 0" by (simp add: unprocessed_in_def)
    then obtain u where u: "u \<in> ?U" "count_list (adj ! u) v \<noteq> 0"
      by (meson sum.neutral)
    then have "v \<in> set (adj ! u)" by (simp add: count_list_0_iff)
    with u(1) show ?thesis by (auto simp: edges_of_def)
  qed
  from acyc finite_edges_of have "wf (edges_of n adj)" by (simp add: finite_acyclic_wf)
  then obtain z where z: "z \<in> ?U" "\<forall>y. (y, z) \<in> edges_of n adj \<longrightarrow> y \<notin> ?U"
    using ne by (metis wfE_min)
  from pred[OF z(1)] z(2) show False by blast
qed

lemma kahn_step_counts:
  assumes inv: "kahn_count_inv n adj (set (take i srt)) [] (nodes, srt)"
    and i: "i < n" and acyc: "acyclic (edges_of n adj)"
    and adj: "\<forall>p < n. \<forall>a \<in> set (adj ! p). a < n"
  shows "\<exists>nodes' srt'. kahn_step adj i (nodes, srt) = Inr (nodes', srt') \<and>
           Suc i \<le> length srt' \<and>
           kahn_count_inv n adj (set (take (Suc i) srt')) [] (nodes', srt')"
proof -
  from kahn_progress[OF inv i acyc] have il: "i < length srt" .
  let ?p = "srt ! i"
  let ?P = "set (take i srt)"
  let ?P' = "set (take (Suc i) srt)"
  from inv[unfolded kahn_count_inv_def prod.case]
  have f: "n \<le> length nodes" "distinct srt" "set srt \<subseteq> {0..<n}"
    "\<forall>v < n. Indegree (nodes ! v) = int (count_list [] v + unprocessed_in n adj ?P v)"
    "\<forall>v < n. v \<in> set srt \<longleftrightarrow> Indegree (nodes ! v) = 0"
    "\<forall>v < n. Indegree (nodes ! v) \<le> 32767"
    by blast+
  have pn: "?p < n" using f(3) il by (auto dest: nth_mem)
  have P': "?P' = insert ?p ?P" using il by (simp add: take_Suc_conv_app_nth)
  have pnot: "?p \<notin> ?P" using f(2) il
    by (metis distinct_take id_take_nth_drop not_distinct_conv_prefix)
  have split: "unprocessed_in n adj ?P v = count_list (adj ! ?p) v + unprocessed_in n adj ?P' v" for v
  proof -
    have "?p \<in> {0..<n} - ?P" using pn pnot by simp
    then have "(\<Sum>u \<in> {0..<n} - ?P. count_list (adj ! u) v) =
        count_list (adj ! ?p) v + (\<Sum>u \<in> ({0..<n} - ?P) - {?p}. count_list (adj ! u) v)"
      by (intro sum.remove) simp_all
    moreover have "({0..<n} - ?P) - {?p} = {0..<n} - ?P'" using P' by auto
    ultimately show ?thesis by (simp add: unprocessed_in_def)
  qed
  have cnt': "\<forall>v < n. Indegree (nodes ! v) = int (count_list (adj ! ?p) v + unprocessed_in n adj ?P' v)"
    using f(4) split by simp
  have inv': "kahn_count_inv n adj ?P' (adj ! ?p) (nodes, srt)"
    unfolding kahn_count_inv_def prod.case using f(1,2,3,5,6) cnt' by blast
  from adj pn have "\<forall>a \<in> set (adj ! ?p). a < n" by blast
  from fold_relax_counts[OF inv' this] obtain nodes' srt' ys where
    r: "fold_err relax (adj ! ?p) (nodes, srt) = Inr (nodes', srt')" and
    pre: "srt' = srt @ ys" and
    inv'': "kahn_count_inv n adj ?P' [] (nodes', srt')" by auto
  have "take (Suc i) srt' = take (Suc i) srt" using pre il by simp
  with inv'' have "kahn_count_inv n adj (set (take (Suc i) srt')) [] (nodes', srt')" by simp
  moreover have "kahn_step adj i (nodes, srt) = Inr (nodes', srt')"
    using il r by (simp add: kahn_step_def)
  moreover have "Suc i \<le> length srt'" using pre il by simp
  ultimately show ?thesis by blast
qed

lemma kahn_loop_counts:
  assumes inv: "kahn_count_inv n adj {} [] (nodes, srt)"
    and acyc: "acyclic (edges_of n adj)"
    and adj: "\<forall>p < n. \<forall>a \<in> set (adj ! p). a < n"
    and k: "k \<le> n"
  shows "\<exists>nodes' srt'. fold_err (kahn_step adj) [0..<k] (nodes, srt) = Inr (nodes', srt') \<and>
           k \<le> length srt' \<and>
           kahn_count_inv n adj (set (take k srt')) [] (nodes', srt')"
  using k
proof (induction k)
  case 0
  with inv show ?case by simp
next
  case (Suc k)
  then obtain n1 s1 where
    f: "fold_err (kahn_step adj) [0..<k] (nodes, srt) = Inr (n1, s1)" and
    i1: "kahn_count_inv n adj (set (take k s1)) [] (n1, s1)" by auto
  from Suc.prems have kn: "k < n" by simp
  from kahn_step_counts[OF i1 kn acyc adj] obtain n2 s2 where
    s: "kahn_step adj k (n1, s1) = Inr (n2, s2)" and l: "Suc k \<le> length s2" and
    i2: "kahn_count_inv n adj (set (take (Suc k) s2)) [] (n2, s2)" by blast
  from f s have "fold_err (kahn_step adj) [0..<Suc k] (nodes, srt) = Inr (n2, s2)"
    by (simp add: fold_err_append)
  with l i2 show ?case by blast
qed

lemma Sort_topological_succeeds:
  assumes n: "0 < n" "n \<le> length nodes"
    and deg: "\<forall>v < n. Indegree (nodes ! v) = int (unprocessed_in n adj {} v)"
    and rng: "\<forall>v < n. Indegree (nodes ! v) \<le> 32767"
    and acyc: "acyclic (edges_of n adj)"
    and adj: "\<forall>p < n. \<forall>a \<in> set (adj ! p). a < n"
  shows "\<exists>topo nodes'. Sort_topological n adj nodes = Inr (topo, nodes')"
proof -
  let ?s0 = "frontier n nodes"
  let ?n0 = "frontier_batches n nodes"
  note fb = frontier_batches_nth[OF n(2)]
  have same: "v < n \<Longrightarrow> Indegree (?n0 ! v) = Indegree (nodes ! v)" for v
    using fb n(2) by simp
  have inv0: "kahn_count_inv n adj {} [] (?n0, ?s0)"
    unfolding kahn_count_inv_def prod.case
    using fb n(2) deg rng by (auto simp: frontier_def same)
  have "kahn_count_inv n adj (set (take 0 ?s0)) [] (?n0, ?s0)" using inv0 by simp
  from kahn_progress[OF this n(1) acyc] have ne: "0 < length ?s0" .
  from kahn_loop_counts[OF inv0 acyc adj order_refl] obtain nodes1 srt where
    f: "fold_err (kahn_step adj) [0..<n] (?n0, ?s0) = Inr (nodes1, srt)" and
    l: "n \<le> length srt" and
    i: "kahn_count_inv n adj (set (take n srt)) [] (nodes1, srt)" by blast
  from i[unfolded kahn_count_inv_def prod.case] have "distinct srt" "set srt \<subseteq> {0..<n}" by blast+
  then have "length srt \<le> n"
    by (metis card_atLeastLessThan card_mono diff_zero distinct_card finite_atLeastLessThan)
  with l have "n = length srt" by simp
  with ne f show ?thesis by (simp add: Sort_topological_def Let_def)
qed

section \<open>In-degrees after the edge construction\<close>

lemma build_producers_range:
  assumes "fold_err (build_producer c inp) ps (node, adj) = Inr (node', adj')"
    and "int16_range (Indegree node)"
  shows "int16_range (Indegree node')"
  using assms
proof (induction ps arbitrary: node adj)
  case Nil
  then show ?case by simp
next
  case (Cons ph ps)
  from Cons.prems(1) obtain n1 a1 where
    s1: "build_producer c inp ph (node, adj) = Inr (n1, a1)" and
    s2: "fold_err (build_producer c inp) ps (n1, a1) = Inr (node', adj')"
    by (auto split: sum.splits)
  from s1 Cons.prems(2) have "int16_range (Indegree n1)"
    by (auto simp: build_producer_def split: if_splits sum.splits)
  from Cons.IH[OF s2 this] show ?case .
qed

lemma build_input_range:
  assumes "build_input g c inp (node, adj) = Inr (node', adj')"
    and "int16_range (Indegree node)"
  shows "int16_range (Indegree node')"
proof -
  let ?r = "resource_of g inp"
  let ?k = "CurrProdIdx ?r"
  let ?n1 = "node\<lparr>Indegree := (if ?k = 0 then Indegree node - 1 else Indegree node + (?k - 1))\<rparr>"
  from assms(1) have f: "fold_err (build_producer c inp) (producers_of ?r) (?n1, adj) = Inr (node', adj')"
    and g: "?k = 0 \<longrightarrow> 0 \<le> Indegree node - 1" "?k \<noteq> 0 \<longrightarrow> int16_range (Indegree node + (?k - 1))"
    by (auto simp: build_input_def Let_def resource_of_def split: if_splits)
  have "int16_range (Indegree ?n1)"
    using g assms(2) by (auto simp: int16_range_def)
  from build_producers_range[OF f this] show ?thesis .
qed

lemma build_inputs_range:
  assumes "fold_err (build_input g c) inps (node, adj) = Inr (node', adj')"
    and "int16_range (Indegree node)"
  shows "int16_range (Indegree node')"
  using assms
proof (induction inps arbitrary: node adj)
  case Nil
  then show ?case by simp
next
  case (Cons inp inps)
  from Cons.prems(1) obtain n1 a1 where
    s1: "build_input g c inp (node, adj) = Inr (n1, a1)" and
    s2: "fold_err (build_input g c) inps (n1, a1) = Inr (node', adj')"
    by (auto split: sum.splits)
  from Cons.IH[OF s2 build_input_range[OF s1 Cons.prems(2)]] show ?case .
qed

lemma build_nodes_range:
  assumes "fold_err (build_node g) [0..<k] (ns, adj) = Inr (ns', adj')" and "k \<le> length ns"
    and "\<forall>i < k. int16_range (Indegree (ns ! i))"
  shows "\<forall>i < k. int16_range (Indegree (ns' ! i))"
  using assms
proof (induction k arbitrary: ns' adj')
  case 0
  then show ?case by simp
next
  case (Suc k)
  from Suc.prems(1) obtain ns1 adj1 where
    s1: "fold_err (build_node g) [0..<k] (ns, adj) = Inr (ns1, adj1)" and
    s2: "build_node g k (ns1, adj1) = Inr (ns', adj')"
    by (auto simp: fold_err_append split: sum.splits)
  from Suc.prems(2) have k: "k \<le> length ns" "k < length ns" by simp_all
  from Suc.prems(3) have r: "\<forall>i < k. int16_range (Indegree (ns ! i))" by simp
  note ih = Suc.IH[OF s1 k(1) r]
  note fold = build_nodes_fold[OF s1 k(1)]
  have nk: "ns1 ! k = ns ! k" using fold k(2) by simp
  have l1: "length ns1 = length ns" using fold by simp
  from s2 obtain node' where
    f: "fold_err (build_input g k) (Inputs (ns1 ! k)) (ns1 ! k, adj1) = Inr (node', adj')" and
    n: "ns' = ns1[k := node']"
    by (auto simp: build_node_def split: sum.splits)
  from Suc.prems(3) nk have "int16_range (Indegree (ns1 ! k))" by simp
  from build_inputs_range[OF f this] have nr: "int16_range (Indegree node')" .
  show ?case
  proof (intro allI impI)
    fix i assume "i < Suc k"
    then show "int16_range (Indegree (ns' ! i))"
      using ih nr n l1 k(2) by (cases "i = k") (simp_all add: nth_list_update)
  qed
qed

lemma init_indegrees_range:
  assumes "init_indegrees n ns = Inr ns'" and "n \<le> length ns"
  shows "\<forall>i < n. int16_range (Indegree (ns' ! i))"
  using assms
proof (induction n arbitrary: ns')
  case 0
  then show ?case by simp
next
  case (Suc n)
  from Suc.prems(1) obtain ns1 where
    s1: "init_indegrees n ns = Inr ns1" and s2: "init_indegree n ns1 = Inr ns'"
    by (auto simp: init_indegrees_def fold_err_append split: sum.splits)
  from Suc.prems(2) have n: "n \<le> length ns" "n < length ns" by simp_all
  note ih = Suc.IH[OF s1 n(1)]
  from init_indegrees_nth[OF s1 n(1)] have l: "length ns1 = length ns" by simp
  from s2 have step: "ns' = ns1[n := (ns1 ! n)\<lparr>Indegree := int (length (Inputs (ns1 ! n)))\<rparr>]"
    and rg: "int16_range (int (length (Inputs (ns1 ! n))))"
    by (auto simp: init_indegree_def split: if_splits)
  show ?case
  proof (intro allI impI)
    fix i assume "i < Suc n"
    then show "int16_range (Indegree (ns' ! i))"
      using ih rg l n(2) by (cases "i = n") (simp_all add: step nth_list_update)
  qed
qed

lemma BuildEdges_indegree_range:
  assumes "BuildEdges g = Inr (nodes, adj)" and "c < nat (m_currRenderPassIdx g)"
  shows "int16_range (Indegree (nodes ! c))"
proof -
  let ?n = "nat (m_currRenderPassIdx g)"
  let ?ns = "m_renderNodes g"
  from assms(1) have le: "?n \<le> length ?ns"
    by (auto simp: BuildEdges_def MAX_NUM_RENDER_PASSES_def split: if_splits)
  from assms(1) obtain ini where i0: "init_indegrees ?n ?ns = Inr ini" and
    f: "fold_err (build_node g) [0..<?n] (ini, replicate (length ?ns) []) = Inr (nodes, adj)"
    by (auto simp: BuildEdges_def split: if_splits sum.splits)
  from init_indegrees_nth[OF i0 le] le have le0: "?n \<le> length ini" by simp
  from build_nodes_range[OF f le0 init_indegrees_range[OF i0 le]] assms(2) show ?thesis by blast
qed

lemma count_list_handles:
  assumes "\<forall>h \<in> set ps. 0 \<le> h \<and> h < int n"
  shows "(\<Sum>u \<in> {0..<n}. count_list ps (int u)) = length ps"
  using assms
proof (induction ps)
  case Nil
  then show ?case by simp
next
  case (Cons h ps)
  then have h: "0 \<le> h" "nat h < n" and ih: "(\<Sum>u \<in> {0..<n}. count_list ps (int u)) = length ps"
    by auto
  have eq: "count_list (h # ps) (int u) = (if u = nat h then 1 else 0) + count_list ps (int u)" for u
    using h(1) by auto
  have "(\<Sum>u \<in> {0..<n}. (if u = nat h then 1 else 0 :: nat)) = 1"
    using h(2) by simp
  then show ?case by (simp add: eq sum.distrib ih del: count_list.simps)
qed

lemma edges_added_total:
  assumes "\<forall>h \<in> set ps. 0 \<le> h \<and> h < int n" and "c < n"
  shows "(\<Sum>u \<in> {0..<n}. edges_added u c ps) + count_list ps (int c) = length ps"
proof -
  have "(\<Sum>u \<in> {0..<n}. count_list ps (int u)) =
        count_list ps (int c) + (\<Sum>u \<in> {0..<n} - {c}. count_list ps (int u))"
    using assms(2) by (intro sum.remove) simp_all
  moreover have "(\<Sum>u \<in> {0..<n}. edges_added u c ps) = (\<Sum>u \<in> {0..<n} - {c}. count_list ps (int u))"
  proof -
    have "(\<Sum>u \<in> {0..<n}. edges_added u c ps) =
          edges_added c c ps + (\<Sum>u \<in> {0..<n} - {c}. edges_added u c ps)"
      using assms(2) by (intro sum.remove) simp_all
    also have "\<dots> = (\<Sum>u \<in> {0..<n} - {c}. count_list ps (int u))"
      by (simp add: edges_added_def)
    finally show ?thesis .
  qed
  ultimately show ?thesis using count_list_handles[OF assms(1)] by simp
qed

lemma sum_sum_list_swap:
  "(\<Sum>u \<in> A. \<Sum>x\<leftarrow>xs. f u x) = (\<Sum>x\<leftarrow>xs. \<Sum>u \<in> A. (f u x :: nat))"
  by (induction xs) (simp_all add: sum.distrib)

lemma int_sum_list_map: "int (\<Sum>x\<leftarrow>xs. f x) = (\<Sum>x\<leftarrow>xs. int (f x))"
  by (induction xs) simp_all

lemma sum_list_split3:
  "(\<Sum>x\<leftarrow>xs. 1 + f x - h x) = int (length xs) + (\<Sum>x\<leftarrow>xs. f x) - (\<Sum>x\<leftarrow>xs. (h x :: int))"
  by (induction xs) simp_all

lemma BuildEdges_indegree_counts_edges:
  assumes b: "BuildEdges g = Inr (nodes, adj)" and c: "c < nat (m_currRenderPassIdx g)"
    and v: "producers_valid g"
  shows "Indegree (nodes ! c) = int (unprocessed_in (nat (m_currRenderPassIdx g)) adj {} c)"
proof -
  let ?n = "nat (m_currRenderPassIdx g)"
  let ?N = "m_renderNodes g ! c"
  let ?ps = "\<lambda>inp. producers_of (resource_of g inp)"
  note r = BuildEdges_result[OF b]
  from r have nl: "?n \<le> length (m_renderNodes g)" and pos: "0 < m_currRenderPassIdx g" by simp_all
  have adjp: "count_list (adj ! u) c = edge_count g u c ?N" if "u < ?n" for u
  proof -
    from that nl have "u < length (m_renderNodes g)" by simp
    with r have "adj ! u = concat (map (\<lambda>c. replicate (edge_count g u c (m_renderNodes g ! c)) c) [0..<?n])"
      by blast
    then show ?thesis using c by (simp add: count_list_concat_replicate)
  qed
  have valid: "0 \<le> CurrProdIdx (resource_of g inp) \<and> (\<forall>h \<in> set (?ps inp). 0 \<le> h \<and> h < int ?n)"
    if "inp \<in> set (Inputs ?N)" for inp
    using v c that pos unfolding producers_valid_def by auto
  have per: "1 + fan_in g inp - int (times_produced_by g (int c) inp) =
            int (\<Sum>u \<in> {0..<?n}. edges_added u c (?ps inp))"
    if "inp \<in> set (Inputs ?N)" for inp
  proof -
    from valid[OF that] have k: "0 \<le> CurrProdIdx (resource_of g inp)"
      and hs: "\<forall>h \<in> set (?ps inp). 0 \<le> h \<and> h < int ?n" by simp_all
    have len: "int (length (?ps inp)) = CurrProdIdx (resource_of g inp)"
      using k by (simp add: producers_of_def)
    have "1 + fan_in g inp = int (length (?ps inp))"
      unfolding len by (simp add: fan_in_def)
    moreover from edges_added_total[OF hs c]
    have "int (\<Sum>u \<in> {0..<?n}. edges_added u c (?ps inp)) =
          int (length (?ps inp)) - int (count_list (?ps inp) (int c))" by linarith
    ultimately show ?thesis by (simp add: times_produced_by_def)
  qed
  have "int (unprocessed_in ?n adj {} c) = int (\<Sum>u \<in> {0..<?n}. edge_count g u c ?N)"
    by (simp add: unprocessed_in_def adjp)
  also have "\<dots> = int (\<Sum>inp\<leftarrow>Inputs ?N. \<Sum>u \<in> {0..<?n}. edges_added u c (?ps inp))"
    by (simp add: edge_count_def sum_sum_list_swap)
  also have "\<dots> = (\<Sum>inp\<leftarrow>Inputs ?N. int (\<Sum>u \<in> {0..<?n}. edges_added u c (?ps inp)))"
    by (simp add: int_sum_list_map)
  also have "\<dots> = (\<Sum>inp\<leftarrow>Inputs ?N. 1 + fan_in g inp - int (times_produced_by g (int c) inp))"
    by (rule arg_cong[where f = sum_list], rule map_cong) (simp_all add: per)
  also have "\<dots> = int (length (Inputs ?N)) + (\<Sum>inp\<leftarrow>Inputs ?N. fan_in g inp)
                    - (\<Sum>inp\<leftarrow>Inputs ?N. int (times_produced_by g (int c) inp))"
    by (rule sum_list_split3)
  finally have e: "int (unprocessed_in ?n adj {} c) =
      int (length (Inputs ?N)) + (\<Sum>inp\<leftarrow>Inputs ?N. fan_in g inp)
        - (\<Sum>inp\<leftarrow>Inputs ?N. int (times_produced_by g (int c) inp))" .
  from r c have "nodes ! c = built_node g c (?N\<lparr>Indegree := int (length (Inputs ?N))\<rparr>)" by blast
  then show ?thesis by (simp add: built_node_def e)
qed

section \<open>The sorted mapping of a DAG\<close>

lemma fan_in_graph_valid: "producers_valid fan_in_graph"
proof -
  let ?ok = "\<lambda>c. \<forall>inp \<in> set (Inputs (m_renderNodes fan_in_graph ! c)).
      0 \<le> CurrProdIdx (resource_of fan_in_graph inp) \<and>
      (\<forall>h \<in> set (producers_of (resource_of fan_in_graph inp)).
         0 \<le> h \<and> h < m_currRenderPassIdx fan_in_graph)"
  have ok: "?ok 0" "?ok 1" "?ok 2"
    by (simp_all add: fan_in_graph_def resource_of_def producers_of_def FindFrameResource1_def
        FindFrameResource_def BinarySearch_def lower_bound.simps Let_def)
      (auto simp: nth_Cons')
  have "?ok c" if "c < nat (m_currRenderPassIdx fan_in_graph)" for c
  proof -
    from that have "c < 3" by (simp add: fan_in_graph_def)
    then have "c = 0 \<or> c = 1 \<or> c = 2" by arith
    with ok show ?thesis by blast
  qed
  then show ?thesis unfolding producers_valid_def by blast
qed

lemma fan_in_graph_acyclic: "acyclic (edges_of 3 fan_in_adjacency)"
proof (rule acyclicI_order[where f = "\<lambda>x. - int x"])
  fix a b assume "(a, b) \<in> edges_of 3 fan_in_adjacency"
  then have "a < 3" "b \<in> set (fan_in_adjacency ! a)" by (auto simp: edges_of_def)
  then have "a < b"
    by (cases "a = 0"; cases "a = 1"; cases "a = 2") (auto simp: fan_in_adjacency_def)
  then show "- int b < - int a" by simp
qed


text \<open>
  Claim C8. After the topological sort and the reorder by batch index, \<open>m_mapping\<close>
  is a permutation of the node handles: \<open>h \<mapsto> m_mapping[h]\<close> is a bijection on
  \<open>[0, numNodes)\<close>, given that the declared graph is a DAG. The graph is the one
  \<open>Build\<close> constructed its edges for; every producer handle recorded for an input
  names a registered node; the producer-to-consumer edges are acyclic; \<open>m_mapping\<close>
  has one slot per node slot. Under these hypotheses \<open>Sort\<close> runs through without a
  failed assertion, and the mapping is a bijection for every result \<open>std::sort\<close>
  may return.
\<close>
theorem Sort_mapping_bijection:
  assumes b: "BuildEdges g = Inr (nodes, adj)"
    and m: "length (m_mapping g) = length (m_renderNodes g)"
    and v: "producers_valid g"
    and dag: "acyclic (edges_of (nat (m_currRenderPassIdx g)) adj)"
  shows "(\<exists>g'. Sort adj (g\<lparr>m_renderNodes := nodes\<rparr>) g') \<and>
         (\<forall>g'. Sort adj (g\<lparr>m_renderNodes := nodes\<rparr>) g' \<longrightarrow>
            bij_betw (\<lambda>h. m_mapping g' ! h)
              {0..<nat (m_currRenderPassIdx g)} {0..<m_currRenderPassIdx g})"
proof
  let ?n = "nat (m_currRenderPassIdx g)"
  let ?g = "g\<lparr>m_renderNodes := nodes\<rparr>"
  note r = BuildEdges_result[OF b]
  have n: "0 < ?n" "?n \<le> length nodes" using r by simp_all
  have deg: "\<forall>v < ?n. Indegree (nodes ! v) = int (unprocessed_in ?n adj {} v)"
    using BuildEdges_indegree_counts_edges[OF b _ v] by blast
  have rng: "\<forall>v < ?n. Indegree (nodes ! v) \<le> 32767"
    using BuildEdges_indegree_range[OF b] by (auto simp: int16_range_def)
  have adj: "\<forall>p < ?n. \<forall>a \<in> set (adj ! p). a < ?n"
    using BuildEdges_adjacency_in_range[OF b] by blast
  from Sort_topological_succeeds[OF n deg rng dag adj] obtain topo nodes2 where
    t: "Sort_topological ?n adj nodes = Inr (topo, nodes2)" by blast
  let ?key = "\<lambda>h. NodeBatchIdx (nodes2 ! h)"
  have ss: "std_sort_result ?key topo (sort_key ?key topo)"
    by (simp add: std_sort_result_def)
  have t': "Sort_topological (nat (m_currRenderPassIdx ?g)) adj (m_renderNodes ?g) = Inr (topo, nodes2)"
    using t by simp
  from SortI[OF t' ss] show "\<exists>g'. Sort adj ?g g'" by blast
next
  show "\<forall>g'. Sort adj (g\<lparr>m_renderNodes := nodes\<rparr>) g' \<longrightarrow>
            bij_betw (\<lambda>h. m_mapping g' ! h)
              {0..<nat (m_currRenderPassIdx g)} {0..<m_currRenderPassIdx g}"
    using Sort_mapping_bij_betw[OF b _ m] by blast
qed


theorem Sort_mapping_bijection_witness:
  "BuildEdges fan_in_graph = Inr (fan_in_built, fan_in_adjacency) \<and>
   length (m_mapping fan_in_graph) = length (m_renderNodes fan_in_graph) \<and>
   producers_valid fan_in_graph \<and>
   acyclic (edges_of (nat (m_currRenderPassIdx fan_in_graph)) fan_in_adjacency) \<and>
   (\<exists>g'. Sort fan_in_adjacency (fan_in_graph\<lparr>m_renderNodes := fan_in_built\<rparr>) g' \<and>
      bij_betw (\<lambda>h. m_mapping g' ! h) {0..<3} {0..<3})"
proof -
  have m: "length (m_mapping fan_in_graph) = length (m_renderNodes fan_in_graph)"
    by (simp add: fan_in_graph_def)
  have n3: "m_currRenderPassIdx fan_in_graph = 3" "nat (3::int) = 3"
    by (simp_all add: fan_in_graph_def)
  have dag: "acyclic (edges_of (nat (m_currRenderPassIdx fan_in_graph)) fan_in_adjacency)"
    using fan_in_graph_acyclic by (simp only: n3)
  note t = Sort_mapping_bijection[OF fan_in_graph_built m fan_in_graph_valid dag]
  from t obtain g' where s: "Sort fan_in_adjacency (fan_in_graph\<lparr>m_renderNodes := fan_in_built\<rparr>) g'"
    by blast
  with t have "bij_betw (\<lambda>h. m_mapping g' ! h)
      {0..<nat (m_currRenderPassIdx fan_in_graph)} {0..<m_currRenderPassIdx fan_in_graph}" by blast
  then have "bij_betw (\<lambda>h. m_mapping g' ! h) {0..<3} {0..<3}" by (simp only: n3)
  with fan_in_graph_built m fan_in_graph_valid dag s show ?thesis by blast
qed

end
